theory Spec2Isabelle
  imports Main
begin

section \<open>Text\<close>

text \<open>
  A JavaScript string is a sequence of UTF-16 code units; a code unit is modelled as a
  natural number and a string as \<open>nat list\<close>.  \<open>js\<close> turns an ASCII literal into such a
  string.
\<close>

type_synonym jsstring = "nat list"

definition js :: "string \<Rightarrow> jsstring" where
  "js s = map of_char s"

section \<open>JSON values\<close>

text \<open>
  The component reads and writes its data through \<open>JSON.parse\<close> and \<open>JSON.stringify\<close>.
  A parsed value is null, a boolean, a number, a string, an array or an object; an object
  is the list of its own properties in enumeration order.  The type \<open>'n\<close> is the type
  of JavaScript Numbers.
\<close>

datatype 'n json =
    JNull
  | JBool bool
  | JNum 'n
  | JStr jsstring
  | JArr "'n json list"
  | JObj "(jsstring \<times> 'n json) list"

text \<open>
  What the runtime does with numbers, taken as a parameter: \<open>num_read\<close> is the Number
  value of a number literal (the nearest double, \<open>Infinity\<close> beyond the range),
  \<open>num_print\<close> is what \<open>JSON.stringify\<close> writes for a Number (\<open>null\<close> when it is not
  finite, otherwise the text of \<open>Number::toString\<close>), and \<open>num_falsy\<close> holds of the
  Numbers that are falsy.
\<close>

record 'n numeric =
  num_read :: "jsstring \<Rightarrow> 'n"
  num_print :: "'n \<Rightarrow> jsstring"
  num_falsy :: "'n \<Rightarrow> bool"

subsection \<open>Lexical classes\<close>

text \<open>JSON white space is space, tab, line feed and carriage return; digits are \<open>0\<close> to \<open>9\<close>.\<close>

definition is_ws :: "nat \<Rightarrow> bool" where
  "is_ws c = (c = 32 \<or> c = 9 \<or> c = 10 \<or> c = 13)"

definition is_digit :: "nat \<Rightarrow> bool" where
  "is_digit c = (48 \<le> c \<and> c \<le> 57)"

definition skip_ws :: "jsstring \<Rightarrow> jsstring" where
  "skip_ws s = dropWhile is_ws s"

subsection \<open>Numbers\<close>

text \<open>
  The number grammar: an optional minus sign, an integer part (\<open>0\<close>, or a non-zero digit
  followed by digits), an optional fraction (a point and at least one digit) and an
  optional exponent (\<open>e\<close> or \<open>E\<close>, an optional sign, at least one digit).  Each scanner
  returns the text it accepted and the rest of the input.
\<close>

definition scan_int :: "jsstring \<Rightarrow> (jsstring \<times> jsstring) option" where
  "scan_int s =
     (case s of
        [] \<Rightarrow> None
      | d # r \<Rightarrow>
          if d = 48 then Some ([48], r)
          else if is_digit d then Some (d # takeWhile is_digit r, dropWhile is_digit r)
          else None)"

definition scan_frac :: "jsstring \<Rightarrow> (jsstring \<times> jsstring) option" where
  "scan_frac s =
     (case s of
        [] \<Rightarrow> Some ([], s)
      | c # r \<Rightarrow>
          if c = 46 then
            (if takeWhile is_digit r = [] then None
             else Some (46 # takeWhile is_digit r, dropWhile is_digit r))
          else Some ([], s))"

definition scan_exp_digits :: "jsstring \<Rightarrow> jsstring \<Rightarrow> (jsstring \<times> jsstring) option" where
  "scan_exp_digits pre r =
     (if takeWhile is_digit r = [] then None
      else Some (pre @ takeWhile is_digit r, dropWhile is_digit r))"

definition scan_exp :: "jsstring \<Rightarrow> (jsstring \<times> jsstring) option" where
  "scan_exp s =
     (case s of
        [] \<Rightarrow> Some ([], s)
      | c # r \<Rightarrow>
          if c = 101 \<or> c = 69 then
            (case r of
               [] \<Rightarrow> None
             | g # r' \<Rightarrow>
                 if g = 43 \<or> g = 45 then scan_exp_digits [c, g] r'
                 else scan_exp_digits [c] r)
          else Some ([], s))"

definition scan_unsigned :: "jsstring \<Rightarrow> (jsstring \<times> jsstring) option" where
  "scan_unsigned s =
     (case scan_int s of
        None \<Rightarrow> None
      | Some (i, r1) \<Rightarrow>
          (case scan_frac r1 of
             None \<Rightarrow> None
           | Some (f, r2) \<Rightarrow>
               (case scan_exp r2 of
                  None \<Rightarrow> None
                | Some (e, r3) \<Rightarrow> Some (i @ f @ e, r3))))"

definition scan_number :: "jsstring \<Rightarrow> (jsstring \<times> jsstring) option" where
  "scan_number s =
     (case s of
        [] \<Rightarrow> None
      | c # r \<Rightarrow>
          if c = 45 then map_option (\<lambda>(t, r'). (45 # t, r')) (scan_unsigned r)
          else scan_unsigned s)"

subsection \<open>Strings\<close>

text \<open>
  \<open>scan_string\<close> reads a string body after its opening quote up to the closing quote and
  decodes the escapes; a raw control character (below 32) is a syntax error.
\<close>

definition hex_val :: "nat \<Rightarrow> nat option" where
  "hex_val c =
     (if 48 \<le> c \<and> c \<le> 57 then Some (c - 48)
      else if 97 \<le> c \<and> c \<le> 102 then Some (c - 87)
      else if 65 \<le> c \<and> c \<le> 70 then Some (c - 55)
      else None)"

definition hex4 :: "nat \<Rightarrow> nat \<Rightarrow> nat \<Rightarrow> nat \<Rightarrow> nat option" where
  "hex4 a b c d =
     (case (hex_val a, hex_val b, hex_val c, hex_val d) of
        (Some x, Some y, Some z, Some w) \<Rightarrow> Some (4096 * x + 256 * y + 16 * z + w)
      | _ \<Rightarrow> None)"

definition simple_escape :: "nat \<Rightarrow> nat option" where
  "simple_escape e =
     (if e = 34 then Some 34
      else if e = 92 then Some 92
      else if e = 47 then Some 47
      else if e = 98 then Some 8
      else if e = 102 then Some 12
      else if e = 110 then Some 10
      else if e = 114 then Some 13
      else if e = 116 then Some 9
      else None)"

fun scan_string :: "jsstring \<Rightarrow> (jsstring \<times> jsstring) option" where
  "scan_string [] = None"
| "scan_string (c # cs) =
     (if c = 34 then Some ([], cs)
      else if c = 92 then
        (case cs of
           [] \<Rightarrow> None
         | e # es \<Rightarrow>
             if e = 117 then
               (case es of
                  a # b # h # d # r \<Rightarrow>
                    (case hex4 a b h d of
                       None \<Rightarrow> None
                     | Some u \<Rightarrow> map_option (\<lambda>(t, r'). (u # t, r')) (scan_string r))
                | _ \<Rightarrow> None)
             else
               (case simple_escape e of
                  None \<Rightarrow> None
                | Some u \<Rightarrow> map_option (\<lambda>(t, r'). (u # t, r')) (scan_string es)))
      else if c < 32 then None
      else map_option (\<lambda>(t, r'). (c # t, r')) (scan_string cs))"

subsection \<open>Objects: property order\<close>

text \<open>
  An object enumerates its array-index keys first, in ascending numeric order, then its
  other keys in the order they were created; storing to an existing key keeps its place.
  An array index is a canonical decimal numeral up to \<open>4294967294\<close>; on canonical numerals
  the numeric order is the order by length and then by digits (\<open>idx_less\<close>).
\<close>

fun lex_less :: "jsstring \<Rightarrow> jsstring \<Rightarrow> bool" where
  "lex_less (x # xs) (y # ys) = (x < y \<or> (x = y \<and> lex_less xs ys))"
| "lex_less _ _ = False"

definition idx_less :: "jsstring \<Rightarrow> jsstring \<Rightarrow> bool" where
  "idx_less a b = (length a < length b \<or> (length a = length b \<and> lex_less a b))"

definition max_index :: jsstring where
  "max_index = [52, 50, 57, 52, 57, 54, 55, 50, 57, 52]"

definition is_index :: "jsstring \<Rightarrow> bool" where
  "is_index k =
     (k = [48] \<or>
      (k \<noteq> [] \<and> 49 \<le> hd k \<and> hd k \<le> 57 \<and> list_all is_digit k \<and>
       (k = max_index \<or> idx_less k max_index)))"

fun ins_idx :: "jsstring \<Rightarrow> 'n json \<Rightarrow> (jsstring \<times> 'n json) list \<Rightarrow> (jsstring \<times> 'n json) list" where
  "ins_idx k v [] = [(k, v)]"
| "ins_idx k v ((k', v') # r) =
     (if is_index k' \<and> idx_less k' k then (k', v') # ins_idx k v r
      else (k, v) # (k', v') # r)"

definition obj_put :: "jsstring \<Rightarrow> 'n json \<Rightarrow> (jsstring \<times> 'n json) list \<Rightarrow> (jsstring \<times> 'n json) list" where
  "obj_put k v kvs =
     (if k \<in> set (map fst kvs) then map (\<lambda>(k', v'). if k' = k then (k', v) else (k', v')) kvs
      else if is_index k then ins_idx k v kvs
      else kvs @ [(k, v)])"

definition obj_of :: "(jsstring \<times> 'n json) list \<Rightarrow> (jsstring \<times> 'n json) list" where
  "obj_of ms = foldl (\<lambda>kvs (k, v). obj_put k v kvs) [] ms"

subsection \<open>JSON.parse\<close>

text \<open>
  A recursive-descent parser.  The first argument bounds the depth of the recursion;
  \<open>JSON_parse\<close> supplies a bound that is never reached (lemma \<open>parse_fuel\<close>: from
  \<open>2 * length s + 1\<close> on, the bound does not change the result), so that \<open>None\<close> stands for
  a \<open>SyntaxError\<close> only.
\<close>

fun parse_value :: "'n numeric \<Rightarrow> nat \<Rightarrow> jsstring \<Rightarrow> ('n json \<times> jsstring) option"
  and parse_elems :: "'n numeric \<Rightarrow> nat \<Rightarrow> jsstring \<Rightarrow> ('n json list \<times> jsstring) option"
  and parse_members ::
    "'n numeric \<Rightarrow> nat \<Rightarrow> jsstring \<Rightarrow> ((jsstring \<times> 'n json) list \<times> jsstring) option"
where
  "parse_value N 0 s = None"
| "parse_value N (Suc n) s =
     (case skip_ws s of
        [] \<Rightarrow> None
      | c # cs \<Rightarrow>
          if c = 123 then
            (case skip_ws cs of
               [] \<Rightarrow> None
             | d # ds \<Rightarrow>
                 if d = 125 then Some (JObj [], ds)
                 else map_option (\<lambda>(ms, r). (JObj (obj_of ms), r)) (parse_members N n (d # ds)))
          else if c = 91 then
            (case skip_ws cs of
               [] \<Rightarrow> None
             | d # ds \<Rightarrow>
                 if d = 93 then Some (JArr [], ds)
                 else map_option (\<lambda>(vs, r). (JArr vs, r)) (parse_elems N n (d # ds)))
          else if c = 34 then map_option (\<lambda>(t, r). (JStr t, r)) (scan_string cs)
          else if take 4 (c # cs) = [116, 114, 117, 101] then Some (JBool True, drop 4 (c # cs))
          else if take 5 (c # cs) = [102, 97, 108, 115, 101] then Some (JBool False, drop 5 (c # cs))
          else if take 4 (c # cs) = [110, 117, 108, 108] then Some (JNull, drop 4 (c # cs))
          else map_option (\<lambda>(t, r). (JNum (num_read N t), r)) (scan_number (c # cs)))"
| "parse_elems N 0 s = None"
| "parse_elems N (Suc n) s =
     (case parse_value N n s of
        None \<Rightarrow> None
      | Some (v, r) \<Rightarrow>
          (case skip_ws r of
             [] \<Rightarrow> None
           | c # cs \<Rightarrow>
               if c = 44 then map_option (\<lambda>(vs, r'). (v # vs, r')) (parse_elems N n cs)
               else if c = 93 then Some ([v], cs)
               else None))"
| "parse_members N 0 s = None"
| "parse_members N (Suc n) s =
     (case skip_ws s of
        [] \<Rightarrow> None
      | q # qs \<Rightarrow>
          if q = 34 then
            (case scan_string qs of
               None \<Rightarrow> None
             | Some (k, r0) \<Rightarrow>
                 (case skip_ws r0 of
                    [] \<Rightarrow> None
                  | p # ps \<Rightarrow>
                      if p = 58 then
                        (case parse_value N n ps of
                           None \<Rightarrow> None
                         | Some (v, r) \<Rightarrow>
                             (case skip_ws r of
                                [] \<Rightarrow> None
                              | c # cs \<Rightarrow>
                                  if c = 44 then
                                    map_option (\<lambda>(ms, r'). ((k, v) # ms, r')) (parse_members N n cs)
                                  else if c = 125 then Some ([(k, v)], cs)
                                  else None))
                      else None))
          else None)"

definition JSON_parse :: "'n numeric \<Rightarrow> jsstring \<Rightarrow> 'n json option" where
  "JSON_parse N s =
     (case parse_value N (Suc (2 * length s)) s of
        None \<Rightarrow> None
      | Some (v, r) \<Rightarrow> if skip_ws r = [] then Some v else None)"

subsection \<open>JSON.stringify\<close>

text \<open>
  A number is written as \<open>num_print\<close> gives it.
  Strings are quoted with the short escapes for backspace, tab, line feed, form feed,
  carriage return, the quote and the backslash; other control characters and unpaired
  surrogates are written as a \<open>u\<close> escape with four lower-case hexadecimal digits.
\<close>

definition hex_digit :: "nat \<Rightarrow> nat" where
  "hex_digit n = (if n < 10 then 48 + n else 87 + n)"

definition u_escape :: "nat \<Rightarrow> jsstring" where
  "u_escape c =
     [92, 117, hex_digit (c div 4096 mod 16), hex_digit (c div 256 mod 16),
      hex_digit (c div 16 mod 16), hex_digit (c mod 16)]"

definition is_high_surrogate :: "nat \<Rightarrow> bool" where
  "is_high_surrogate c = (55296 \<le> c \<and> c \<le> 56319)"

definition is_low_surrogate :: "nat \<Rightarrow> bool" where
  "is_low_surrogate c = (56320 \<le> c \<and> c \<le> 57343)"

definition quote_unit :: "nat \<Rightarrow> jsstring" where
  "quote_unit c =
     (if c = 8 then [92, 98]
      else if c = 9 then [92, 116]
      else if c = 10 then [92, 110]
      else if c = 12 then [92, 102]
      else if c = 13 then [92, 114]
      else if c = 34 then [92, 34]
      else if c = 92 then [92, 92]
      else if c < 32 \<or> is_high_surrogate c \<or> is_low_surrogate c then u_escape c
      else [c])"

fun quote_units :: "jsstring \<Rightarrow> jsstring" where
  "quote_units [] = []"
| "quote_units [c] = quote_unit c"
| "quote_units (c # d # r) =
     (if is_high_surrogate c \<and> is_low_surrogate d then c # d # quote_units r
      else quote_unit c @ quote_units (d # r))"

definition quote :: "jsstring \<Rightarrow> jsstring" where
  "quote t = 34 # quote_units t @ [34]"

fun stringify :: "'n numeric \<Rightarrow> 'n json \<Rightarrow> jsstring"
  and stringify_elems :: "'n numeric \<Rightarrow> 'n json list \<Rightarrow> jsstring"
  and stringify_members :: "'n numeric \<Rightarrow> (jsstring \<times> 'n json) list \<Rightarrow> jsstring"
where
  "stringify N JNull = [110, 117, 108, 108]"
| "stringify N (JBool b) = (if b then [116, 114, 117, 101] else [102, 97, 108, 115, 101])"
| "stringify N (JNum x) = num_print N x"
| "stringify N (JStr t) = quote t"
| "stringify N (JArr vs) = 91 # stringify_elems N vs @ [93]"
| "stringify N (JObj kvs) = 123 # stringify_members N kvs @ [125]"
| "stringify_elems N [] = []"
| "stringify_elems N [v] = stringify N v"
| "stringify_elems N (v # w # vs) = stringify N v @ 44 # stringify_elems N (w # vs)"
| "stringify_members N [] = []"
| "stringify_members N [(k, v)] = quote k @ 58 # stringify N v"
| "stringify_members N ((k, v) # m # ms) = quote k @ 58 # stringify N v @ 44 # stringify_members N (m # ms)"

subsection \<open>Well-formed values\<close>

text \<open>
  \<open>is_number\<close> holds of the number literals of the grammar.  In the values
  \<open>JSON.parse\<close> can return, the keys of every object are distinct and in enumeration
  order.  \<open>value_start\<close> are the characters a value can begin with; \<open>num_stop\<close> and
  \<open>no_digit_ahead\<close> say that a text cannot continue a number.
\<close>

definition is_number :: "jsstring \<Rightarrow> bool" where
  "is_number t = (scan_number t = Some (t, []))"

fun keys_ok :: "jsstring list \<Rightarrow> bool" where
  "keys_ok [] = True"
| "keys_ok (k # ks) =
     (k \<notin> set ks \<and> keys_ok ks \<and>
      (if is_index k then (\<forall>k'\<in>set ks. is_index k' \<longrightarrow> idx_less k k')
       else (\<forall>k'\<in>set ks. \<not> is_index k')))"

fun wf_json :: "'n json \<Rightarrow> bool"
  and wf_elems :: "'n json list \<Rightarrow> bool"
  and wf_members :: "(jsstring \<times> 'n json) list \<Rightarrow> bool"
where
  "wf_json JNull = True"
| "wf_json (JBool b) = True"
| "wf_json (JNum x) = True"
| "wf_json (JStr t) = True"
| "wf_json (JArr vs) = wf_elems vs"
| "wf_json (JObj kvs) = (keys_ok (map fst kvs) \<and> wf_members kvs)"
| "wf_elems [] = True"
| "wf_elems (v # vs) = (wf_json v \<and> wf_elems vs)"
| "wf_members [] = True"
| "wf_members ((k, v) # ms) = (wf_json v \<and> wf_members ms)"

definition value_start :: "nat \<Rightarrow> bool" where
  "value_start c = (c = 110 \<or> c = 116 \<or> c = 102 \<or> c = 34 \<or> c = 91 \<or> c = 123 \<or> c = 45 \<or> is_digit c)"


definition num_stop :: "jsstring \<Rightarrow> bool" where
  "num_stop r = (case r of [] \<Rightarrow> True | c # _ \<Rightarrow> \<not> is_digit c \<and> c \<noteq> 46 \<and> c \<noteq> 101 \<and> c \<noteq> 69)"

definition no_digit_ahead :: "jsstring \<Rightarrow> bool" where
  "no_digit_ahead r = (case r of [] \<Rightarrow> True | c # _ \<Rightarrow> \<not> is_digit c)"



subsection \<open>Numbers across printing and parsing\<close>

text \<open>
  What ECMAScript lays down for the two conversions, as far as the component depends on
  it: \<open>JSON.stringify\<close> writes a Number as \<open>null\<close> or as a number literal, and reading a
  written literal back and writing it again gives the same text (\<open>Number::toString\<close>
  yields digits that denote the Number itself; negative zero is written \<open>0\<close>).
\<close>

definition numeric_ok :: "'n numeric \<Rightarrow> bool" where
  "numeric_ok N =
     ((\<forall>x. num_print N x = js ''null'' \<or> is_number (num_print N x)) \<and>
      (\<forall>x. is_number (num_print N x) \<longrightarrow>
           num_print N (num_read N (num_print N x)) = num_print N x))"

text \<open>
  The value that parsing the printed form of a value gives: a Number is read back from
  its text, or is \<open>null\<close> when it was not finite; everything else is as it was.
\<close>

fun reread :: "'n numeric \<Rightarrow> 'n json \<Rightarrow> 'n json"
  and reread_elems :: "'n numeric \<Rightarrow> 'n json list \<Rightarrow> 'n json list"
  and reread_members :: "'n numeric \<Rightarrow> (jsstring \<times> 'n json) list \<Rightarrow> (jsstring \<times> 'n json) list"
where
  "reread N JNull = JNull"
| "reread N (JBool b) = JBool b"
| "reread N (JNum x) =
     (if is_number (num_print N x) then JNum (num_read N (num_print N x)) else JNull)"
| "reread N (JStr t) = JStr t"
| "reread N (JArr vs) = JArr (reread_elems N vs)"
| "reread N (JObj kvs) = JObj (reread_members N kvs)"
| "reread_elems N [] = []"
| "reread_elems N (v # vs) = reread N v # reread_elems N vs"
| "reread_members N [] = []"
| "reread_members N ((k, v) # ms) = (k, reread N v) # reread_members N ms"

section \<open>JavaScript operations used by the component\<close>

text \<open>
  \<open>String.prototype.trim\<close> strips the ECMAScript white space and line terminator code
  units from both ends.
\<close>

definition is_js_space :: "nat \<Rightarrow> bool" where
  "is_js_space c =
     (c = 9 \<or> c = 10 \<or> c = 11 \<or> c = 12 \<or> c = 13 \<or> c = 32 \<or> c = 160 \<or> c = 5760 \<or>
      (8192 \<le> c \<and> c \<le> 8202) \<or> c = 8232 \<or> c = 8233 \<or> c = 8239 \<or> c = 8287 \<or>
      c = 12288 \<or> c = 65279)"

definition js_trim :: "jsstring \<Rightarrow> jsstring" where
  "js_trim s = rev (dropWhile is_js_space (rev (dropWhile is_js_space s)))"

text \<open>Truthiness of a parsed value.\<close>

fun truthy :: "'n numeric \<Rightarrow> 'n json \<Rightarrow> bool" where
  "truthy N JNull = False"
| "truthy N (JBool b) = b"
| "truthy N (JNum x) = (\<not> num_falsy N x)"
| "truthy N (JStr t) = (t \<noteq> [])"
| "truthy N (JArr vs) = True"
| "truthy N (JObj kvs) = True"

text \<open>\<open>typeof v === 'object'\<close> holds for objects, arrays and \<open>null\<close>.\<close>

fun typeof_object :: "'n json \<Rightarrow> bool" where
  "typeof_object JNull = True"
| "typeof_object (JArr vs) = True"
| "typeof_object (JObj kvs) = True"
| "typeof_object _ = False"

fun Array_isArray :: "'n json \<Rightarrow> bool" where
  "Array_isArray (JArr vs) = True"
| "Array_isArray _ = False"

fun array_items :: "'n json \<Rightarrow> 'n json list" where
  "array_items (JArr vs) = vs"
| "array_items _ = []"

text \<open>
  The property reads \<open>v.lines\<close> and \<open>v.points\<close> on a parsed value: an object yields its
  own property of that name, everything else yields \<open>undefined\<close> (\<open>None\<close>); neither name is
  a property of arrays, strings, numbers or booleans.  The source guards each read by the
  truthiness of \<open>v\<close>, so \<open>null.lines\<close> is never evaluated.
\<close>

fun get_prop :: "'n json \<Rightarrow> jsstring \<Rightarrow> 'n json option" where
  "get_prop (JObj kvs) name = map_of kvs name"
| "get_prop _ name = None"

section \<open>Component state of HandwrittenNote\<close>

text \<open>
  The calls the component makes on the drawing surface (\<open>canvasRef.current.clear()\<close>,
  \<open>canvasRef.current.loadSaveData(d, true)\<close>) are recorded in the order they are made.
  What the surface holds is not part of the component: where the source reads
  \<open>canvasRef.current\<close> and calls \<open>getSaveData()\<close>, the operation takes a \<open>jsstring option\<close>,
  \<open>None\<close> when the ref is null and \<open>Some d\<close> when \<open>getSaveData()\<close> returns \<open>d\<close>.
\<close>

datatype canvas_call = Clear | LoadSaveData jsstring

text \<open>\<open>canvasDimensions\<close> holds two JavaScript Numbers.\<close>

record 'n dims =
  width :: 'n
  height :: 'n

text \<open>
  The \<open>useState\<close> cells the page engine reads and writes: \<open>pages\<close> (declared \<open>string[]\<close>),
  \<open>currentPage\<close>, \<open>lastLoadedData\<close>, \<open>canvasDimensions\<close>, \<open>loading\<close>, \<open>error\<close>; \<open>calls\<close> is the
  record of calls made on the drawing surface.
\<close>

record 'n state =
  pages :: "jsstring list"
  currentPage :: nat
  lastLoadedData :: jsstring
  canvasDimensions :: "'n dims"
  loading :: bool
  error :: "jsstring option"
  calls :: "canvas_call list"

text \<open>The initial \<open>canvasDimensions\<close>, \<open>{ width: 1900, height: 1200 }\<close>.\<close>

definition dims0 :: "'n numeric \<Rightarrow> 'n dims" where
  "dims0 N = \<lparr>width = num_read N (js ''1900''), height = num_read N (js ''1200'')\<rparr>"

text \<open>The component as first rendered.\<close>

definition initial :: "'n dims \<Rightarrow> 'n state" where
  "initial d = \<lparr>pages = [], currentPage = 0, lastLoadedData = [], canvasDimensions = d,
                loading = True, error = None, calls = []\<rparr>"

text \<open>
  \<open>pages\<close> is declared \<open>string[]\<close>.  Two places of the source can leave that type at run
  time: an indexed store beyond the end of the array, which leaves holes, and
  \<open>setPages(JSON.parse(...))\<close> on an array with an element that is not a string.  The
  model stops there with a fault instead of inventing a page.
\<close>

datatype fault = SparseArray | NonStringPage

subsection \<open>optimizeCanvasData\<close>

text \<open>\<open>JSON.stringify({lines: [], width: canvasDimensions.width, height: canvasDimensions.height})\<close>\<close>

definition empty_buffer :: "'n dims \<Rightarrow> 'n json" where
  "empty_buffer d = JObj [(js ''lines'', JArr []), (js ''width'', JNum (width d)),
                          (js ''height'', JNum (height d))]"

definition emptyCanvasData :: "'n numeric \<Rightarrow> 'n dims \<Rightarrow> jsstring" where
  "emptyCanvasData N d = stringify N (empty_buffer d)"

text \<open>\<open>parsed && typeof parsed === 'object' && parsed.lines && Array.isArray(parsed.lines)\<close>\<close>

definition has_lines :: "'n numeric \<Rightarrow> 'n json \<Rightarrow> bool" where
  "has_lines N parsed =
     (truthy N parsed \<and> typeof_object parsed \<and>
      (case get_prop parsed (js ''lines'') of
         None \<Rightarrow> False
       | Some l \<Rightarrow> truthy N l \<and> Array_isArray l))"

text \<open>\<open>line && line.points && Array.isArray(line.points) && line.points.length > 0\<close>\<close>

text \<open>The elements of \<open>parsed.lines\<close>.\<close>

definition lines_of :: "'n json \<Rightarrow> 'n json list" where
  "lines_of parsed =
     (case get_prop parsed (js ''lines'') of None \<Rightarrow> [] | Some l \<Rightarrow> array_items l)"

definition line_kept :: "'n numeric \<Rightarrow> 'n json \<Rightarrow> bool" where
  "line_kept N line =
     (truthy N line \<and>
      (case get_prop line (js ''points'') of
         None \<Rightarrow> False
       | Some p \<Rightarrow> truthy N p \<and> Array_isArray p \<and> length (array_items p) > 0))"

text \<open>
  \<open>JSON.parse\<close> throwing is the \<open>None\<close> branch (the \<open>catch\<close> falls through to the final
  \<open>return\<close>).  The guard \<open>has_lines\<close> holds only for an object (lemma \<open>has_lines_iff\<close>), so
  the spread \<open>{...parsed, lines: cleanedLines}\<close> is written for an object: it copies the
  properties in order and stores \<open>lines\<close> in place.
\<close>

definition optimizeCanvasData :: "'n numeric \<Rightarrow> 'n dims \<Rightarrow> jsstring \<Rightarrow> jsstring" where
  "optimizeCanvasData N d data =
     (if data = [] \<or> js_trim data = [] then emptyCanvasData N d
      else
        case JSON_parse N data of
          None \<Rightarrow> emptyCanvasData N d
        | Some parsed \<Rightarrow>
            if has_lines N parsed then
              (case parsed of
                 JObj kvs \<Rightarrow>
                   let cleanedLines = filter (line_kept N) (lines_of parsed)
                   in stringify N (JObj (obj_put (js ''lines'') (JArr cleanedLines) kvs))
               | _ \<Rightarrow> emptyCanvasData N d)
            else emptyCanvasData N d)"

text \<open>
  The words of the specification for \<open>optimize\<close>, to compare the source with: a value
  that is an object with a \<open>lines\<close> array (\<open>lines_array\<close> yields the array), a stroke
  with a non-empty \<open>points\<close> array (\<open>has_points\<close>), and the buffer with its \<open>lines\<close>
  replaced and every other field left as it is (\<open>with_lines\<close>).
\<close>

definition lines_array :: "'n json \<Rightarrow> 'n json list option" where
  "lines_array v =
     (case v of
        JObj kvs \<Rightarrow> (case map_of kvs (js ''lines'') of Some (JArr ls) \<Rightarrow> Some ls | _ \<Rightarrow> None)
      | _ \<Rightarrow> None)"

definition has_points :: "'n json \<Rightarrow> bool" where
  "has_points line =
     (case line of
        JObj kvs \<Rightarrow> (case map_of kvs (js ''points'') of Some (JArr ps) \<Rightarrow> ps \<noteq> [] | _ \<Rightarrow> False)
      | _ \<Rightarrow> False)"

definition with_lines ::
  "'n json list \<Rightarrow> (jsstring \<times> 'n json) list \<Rightarrow> (jsstring \<times> 'n json) list" where
  "with_lines ls kvs = map (\<lambda>(k, v). if k = js ''lines'' then (k, JArr ls) else (k, v)) kvs"

subsection \<open>Indexed store into pages\<close>

text \<open>
  \<open>newPages[i] = v\<close>: in range it replaces the element, at \<open>i = length\<close> it appends, and
  beyond that JavaScript would extend the array with holes.
\<close>

definition js_assign :: "jsstring list \<Rightarrow> nat \<Rightarrow> jsstring \<Rightarrow> fault + jsstring list" where
  "js_assign xs i v =
     (if i < length xs then Inr (xs[i := v])
      else if i = length xs then Inr (xs @ [v])
      else Inl SparseArray)"

subsection \<open>saveCurrentPageData, addNewPage, goToPage, deleteCurrentPage\<close>

definition saveCurrentPageData ::
  "'n numeric \<Rightarrow> jsstring option \<Rightarrow> 'n state \<Rightarrow> fault + 'n state" where
  "saveCurrentPageData N canvas st =
     (case canvas of
        None \<Rightarrow> Inr st
      | Some currentData \<Rightarrow>
          (case js_assign (pages st) (currentPage st)
                  (optimizeCanvasData N (canvasDimensions st) currentData) of
             Inl f \<Rightarrow> Inl f
           | Inr newPages \<Rightarrow> Inr (st\<lparr>pages := newPages\<rparr>)))"

definition addNewPage :: "'n numeric \<Rightarrow> jsstring option \<Rightarrow> 'n state \<Rightarrow> fault + 'n state" where
  "addNewPage N canvas st =
     (if canvas = None then Inr st
      else if length (pages st) \<ge> 50 then
        Inr (st\<lparr>error := Some (js ''Maximum 50 pages allowed per note'')\<rparr>)
      else
        case saveCurrentPageData N canvas st of
          Inl f \<Rightarrow> Inl f
        | Inr st1 \<Rightarrow>
            Inr (st1\<lparr>pages := pages st1 @ [emptyCanvasData N (canvasDimensions st)],
                     currentPage := currentPage st1 + 1,
                     lastLoadedData := js ''EMPTY_PAGE''\<rparr>))"

definition goToPage ::
  "'n numeric \<Rightarrow> jsstring option \<Rightarrow> int \<Rightarrow> 'n state \<Rightarrow> fault + 'n state" where
  "goToPage N canvas pageIndex st =
     (if pageIndex < 0 \<or> pageIndex \<ge> int (length (pages st)) \<or> pageIndex = int (currentPage st)
      then Inr st
      else
        case canvas of
          Some currentData \<Rightarrow>
            (case js_assign (pages st) (currentPage st)
                    (optimizeCanvasData N (canvasDimensions st) currentData) of
               Inl f \<Rightarrow> Inl f
             | Inr updatedPages \<Rightarrow>
                 Inr (st\<lparr>pages := updatedPages, calls := calls st @ [Clear],
                         currentPage := nat pageIndex,
                         lastLoadedData := js ''PAGE_CHANGED''\<rparr>))
        | None \<Rightarrow>
            Inr (st\<lparr>currentPage := nat pageIndex, lastLoadedData := js ''PAGE_CHANGED''\<rparr>))"

text \<open>\<open>xs.filter((_, index) => index !== i)\<close>\<close>

definition filter_index_neq :: "nat \<Rightarrow> 'a list \<Rightarrow> 'a list" where
  "filter_index_neq i xs = map snd (filter (\<lambda>(index, _). index \<noteq> i) (enumerate 0 xs))"

definition deleteCurrentPage :: "'n state \<Rightarrow> 'n state" where
  "deleteCurrentPage st =
     (if length (pages st) \<le> 1 then st
      else
        let newPages = filter_index_neq (currentPage st) (pages st);
            newCurrentPage =
              (if currentPage st \<ge> length newPages then length newPages - 1
               else currentPage st)
        in st\<lparr>pages := newPages, currentPage := newCurrentPage,
              lastLoadedData := js ''PAGE_DELETED''\<rparr>)"

subsection \<open>handleSave\<close>

text \<open>
  The \<open>drawingData\<close> field of the request body: \<open>JSON.stringify(updatedPages)\<close>, where
  \<open>updatedPages\<close> is a copy of \<open>pages\<close> with the optimized canvas data stored at
  \<open>currentPage\<close> (\<open>currentCanvasData\<close> stays \<open>''\<close> when the ref is null).
\<close>

definition allPagesData :: "'n numeric \<Rightarrow> jsstring option \<Rightarrow> 'n state \<Rightarrow> fault + jsstring" where
  "allPagesData N canvas st =
     (let currentCanvasData = (case canvas of None \<Rightarrow> [] | Some d \<Rightarrow> d)
      in case js_assign (pages st) (currentPage st)
                (optimizeCanvasData N (canvasDimensions st) currentCanvasData) of
           Inl f \<Rightarrow> Inl f
         | Inr updatedPages \<Rightarrow> Inr (stringify N (JArr (map JStr updatedPages))))"

text \<open>
  \<open>handleSave\<close> returns at once without a token or while a save is in flight; otherwise it
  sends \<open>allPagesData\<close>.  The result is the \<open>drawingData\<close> sent, if any.
\<close>

definition handleSave ::
  "'n numeric \<Rightarrow> bool \<Rightarrow> bool \<Rightarrow> jsstring option \<Rightarrow> 'n state \<Rightarrow> fault + jsstring option" where
  "handleSave N token saving canvas st =
     (if \<not> token \<or> saving then Inr None
      else case allPagesData N canvas st of Inl f \<Rightarrow> Inl f | Inr d \<Rightarrow> Inr (Some d))"

subsection \<open>loadNote\<close>

text \<open>
  What \<open>loadNote\<close> finds: a new note (\<open>id\<close> is \<open>'new'\<close>), an existing note with its
  \<open>drawingData\<close> field (\<open>None\<close> when the field is absent or null), or a failing request.
\<close>

datatype note_source = NewNote | Existing "jsstring option" | Unavailable

fun page_strings :: "'n json list \<Rightarrow> jsstring list option" where
  "page_strings [] = Some []"
| "page_strings (JStr t # vs) = map_option ((#) t) (page_strings vs)"
| "page_strings (_ # vs) = None"

definition loadNote :: "'n numeric \<Rightarrow> note_source \<Rightarrow> 'n state \<Rightarrow> fault + 'n state" where
  "loadNote N src st =
     (let emptyCanvasData = emptyCanvasData N (canvasDimensions st)
      in case src of
           NewNote \<Rightarrow>
             Inr (st\<lparr>pages := [emptyCanvasData], currentPage := 0, loading := False\<rparr>)
         | Unavailable \<Rightarrow>
             Inr (st\<lparr>error := Some (js ''Failed to load note''), loading := False\<rparr>)
         | Existing drawingData \<Rightarrow>
             (case drawingData of
                None \<Rightarrow>
                  Inr (st\<lparr>pages := [emptyCanvasData], currentPage := 0,
                          lastLoadedData := js ''INITIAL_LOAD'', loading := False\<rparr>)
              | Some d \<Rightarrow>
                  if d = [] then
                    Inr (st\<lparr>pages := [emptyCanvasData], currentPage := 0,
                            lastLoadedData := js ''INITIAL_LOAD'', loading := False\<rparr>)
                  else
                    (case JSON_parse N d of
                       None \<Rightarrow>
                         Inr (st\<lparr>pages := [d], currentPage := 0, lastLoadedData := [],
                                 loading := False\<rparr>)
                     | Some pagesData \<Rightarrow>
                         if Array_isArray pagesData \<and> length (array_items pagesData) > 0 then
                           (case page_strings (array_items pagesData) of
                              None \<Rightarrow> Inl NonStringPage
                            | Some ps \<Rightarrow>
                                Inr (st\<lparr>pages := ps, currentPage := 0,
                                        lastLoadedData := js ''INITIAL_LOAD'',
                                        loading := False\<rparr>))
                         else
                           Inr (st\<lparr>pages := [emptyCanvasData], currentPage := 0,
                                   lastLoadedData := js ''INITIAL_LOAD'',
                                   loading := False\<rparr>))))"

subsection \<open>The page-load effect\<close>

text \<open>
  The effect with dependencies \<open>[currentPage, pages, loading, lastLoadedData]\<close>; \<open>mounted\<close>
  says whether \<open>canvasRef.current\<close> is set.  A throwing \<open>JSON.parse\<close> lands in the
  \<open>catch\<close>, which clears the surface and stores the marker.
\<close>

definition pageLoadEffect :: "'n numeric \<Rightarrow> bool \<Rightarrow> 'n state \<Rightarrow> 'n state" where
  "pageLoadEffect N mounted st =
     (if \<not> mounted \<or> length (pages st) = 0 \<or> loading st then st
      else if currentPage st \<ge> length (pages st) then st
      else
        let currentPageData = pages st ! currentPage st
        in if currentPageData = lastLoadedData st then st
           else if currentPageData \<noteq> [] \<and> js_trim currentPageData \<noteq> [] \<and>
                   currentPageData \<noteq> [34, 34] \<and> currentPageData \<noteq> js ''[]'' then
             (case JSON_parse N currentPageData of
                None \<Rightarrow>
                  st\<lparr>calls := calls st @ [Clear], lastLoadedData := js ''EMPTY_PAGE''\<rparr>
              | Some parsedData \<Rightarrow>
                  if has_lines N parsedData then
                    st\<lparr>calls := calls st @ [Clear, LoadSaveData currentPageData],
                       lastLoadedData := currentPageData\<rparr>
                  else
                    st\<lparr>calls := calls st @ [Clear], lastLoadedData := js ''EMPTY_PAGE''\<rparr>)
           else st\<lparr>calls := calls st @ [Clear], lastLoadedData := js ''EMPTY_PAGE''\<rparr>)"

text \<open>
  The data the effect loads onto the surface: it passes every test on the path to
  \<open>loadSaveData\<close>.
\<close>

definition page_accepted :: "'n numeric \<Rightarrow> jsstring \<Rightarrow> bool" where
  "page_accepted N d =
     (d \<noteq> [] \<and> js_trim d \<noteq> [] \<and> d \<noteq> [34, 34] \<and> d \<noteq> js ''[]'' \<and>
      (case JSON_parse N d of None \<Rightarrow> False | Some parsedData \<Rightarrow> has_lines N parsedData))"

subsection \<open>Runs of the page engine\<close>

datatype event =
    AddPage "jsstring option"
  | GoTo "jsstring option" int
  | Delete
  | Flush "jsstring option"
  | Bind bool

fun step :: "'n numeric \<Rightarrow> event \<Rightarrow> 'n state \<Rightarrow> fault + 'n state" where
  "step N (AddPage canvas) st = addNewPage N canvas st"
| "step N (GoTo canvas i) st = goToPage N canvas i st"
| "step N Delete st = Inr (deleteCurrentPage st)"
| "step N (Flush canvas) st = saveCurrentPageData N canvas st"
| "step N (Bind mounted) st = Inr (pageLoadEffect N mounted st)"

fun run :: "'n numeric \<Rightarrow> event list \<Rightarrow> 'n state \<Rightarrow> fault + 'n state" where
  "run N [] st = Inr st"
| "run N (e # es) st = (case step N e st of Inl f \<Rightarrow> Inl f | Inr st' \<Rightarrow> run N es st')"

text \<open>The bounds on the page list and the active index.\<close>

definition page_inv :: "'n state \<Rightarrow> bool" where
  "page_inv st = (1 \<le> length (pages st) \<and> currentPage st < length (pages st))"

text \<open>
  The specification's \<open>toArray\<close>, which the source has no function for: every page
  passed through \<open>optimize\<close>.
\<close>

definition toArray :: "'n numeric \<Rightarrow> 'n dims \<Rightarrow> jsstring list \<Rightarrow> jsstring list" where
  "toArray N d ps = map (optimizeCanvasData N d) ps"


section \<open>A number conversion to run examples with\<close>

text \<open>
  The theorems below hold for every number conversion that meets \<open>numeric_ok\<close>.  To run
  the functions on concrete texts, \<open>lit_numbers\<close> is one such conversion: it carries a
  Number as the literal it was read from, and a literal of magnitude \<open>1e309\<close> or more,
  which lies beyond every double, reads as a non-finite Number and prints as \<open>null\<close>.
  On literals in the form \<open>JSON.stringify\<close> itself writes it prints what JavaScript
  prints; JavaScript's own conversion (rounding to the nearest double, printing the
  shortest digits) is another conversion the theorems cover.
\<close>

datatype litnum = Lit jsstring | NonFinite

definition mantissa_digits :: "jsstring \<Rightarrow> jsstring" where
  "mantissa_digits t = filter is_digit (takeWhile (\<lambda>c. c \<noteq> 101 \<and> c \<noteq> 69) t)"

definition dec_value :: "jsstring \<Rightarrow> nat" where
  "dec_value ds = foldl (\<lambda>a c. 10 * a + (c - 48)) 0 ds"

definition exponent :: "jsstring \<Rightarrow> int" where
  "exponent t =
     (case dropWhile (\<lambda>c. c \<noteq> 101 \<and> c \<noteq> 69) t of
        [] \<Rightarrow> 0
      | e # r \<Rightarrow>
          (case r of
             [] \<Rightarrow> 0
           | g # ds \<Rightarrow>
               if g = 45 then - int (dec_value ds)
               else if g = 43 then int (dec_value ds)
               else int (dec_value r)))"

text \<open>
  For a literal with a non-zero digit, \<open>magnitude\<close> is the \<open>n\<close> with the value in
  \<open>[10^(n-1), 10^n)\<close>: the number of integer digits, less the leading zeros, plus the
  exponent.
\<close>

definition magnitude :: "jsstring \<Rightarrow> int" where
  "magnitude t =
     int (length (takeWhile is_digit (dropWhile (\<lambda>c. c = 45) t)))
     - int (length (takeWhile (\<lambda>c. c = 48) (mantissa_digits t)))
     + exponent t"

definition beyond_double :: "jsstring \<Rightarrow> bool" where
  "beyond_double t = ((\<exists>c\<in>set (mantissa_digits t). c \<noteq> 48) \<and> magnitude t > 309)"

definition lit_numbers :: "litnum numeric" where
  "lit_numbers =
     \<lparr>num_read = (\<lambda>t. if beyond_double t then NonFinite else Lit t),
      num_print =
        (\<lambda>x. case x of
               Lit t \<Rightarrow> if is_number t \<and> \<not> beyond_double t then t else js ''null''
             | NonFinite \<Rightarrow> js ''null''),
      num_falsy =
        (\<lambda>x. case x of Lit t \<Rightarrow> (\<forall>c\<in>set (mantissa_digits t). c = 48) | NonFinite \<Rightarrow> False)\<rparr>"

section \<open>Properties of the JSON functions\<close>

subsection \<open>The parser consumes its input; the recursion bound\<close>

lemma length_skip_ws: "length (skip_ws s) \<le> length s"
  by (simp add: skip_ws_def length_dropWhile_le)

lemma skip_ws_Cons_length: "skip_ws s = c # cs \<Longrightarrow> length cs < length s"
  using length_skip_ws [of s] by simp

lemma scan_string_length: "scan_string s = Some (t, r) \<Longrightarrow> length r < length s"
proof (induction s arbitrary: t r rule: scan_string.induct)
  case 1
  then show ?case by simp
next
  case (2 c cs)
  then show ?case
    by (fastforce split: if_splits list.splits option.splits)
qed

lemma scan_int_length: "scan_int s = Some (t, r) \<Longrightarrow> length r < length s"
  by (auto simp: scan_int_def split: list.splits if_splits
           intro: le_imp_less_Suc length_dropWhile_le)

lemma scan_frac_length: "scan_frac s = Some (t, r) \<Longrightarrow> length r \<le> length s"
  by (auto simp: scan_frac_def split: list.splits if_splits
           intro: le_SucI length_dropWhile_le)

lemma scan_exp_digits_length: "scan_exp_digits p s = Some (t, r) \<Longrightarrow> length r \<le> length s"
  by (auto simp: scan_exp_digits_def split: if_splits intro: length_dropWhile_le)

lemma scan_exp_length: "scan_exp s = Some (t, r) \<Longrightarrow> length r \<le> length s"
  by (auto simp: scan_exp_def split: list.splits if_splits
           dest!: scan_exp_digits_length)

lemma scan_unsigned_length: "scan_unsigned s = Some (t, r) \<Longrightarrow> length r < length s"
  by (auto simp: scan_unsigned_def split: option.splits
           dest!: scan_int_length scan_frac_length scan_exp_length)

lemma scan_number_length: "scan_number s = Some (t, r) \<Longrightarrow> length r < length s"
  by (auto simp: scan_number_def split: list.splits if_splits
           dest!: scan_unsigned_length)

lemma parse_consumes:
  "(\<forall>s v r. parse_value N n s = Some (v, r) \<longrightarrow> length r < length s) \<and>
   (\<forall>s vs r. parse_elems N n s = Some (vs, r) \<longrightarrow> length r + 1 < length s) \<and>
   (\<forall>s ms r. parse_members N n s = Some (ms, r) \<longrightarrow> length r + 1 < length s)"
proof (induction n)
  case 0
  show ?case by simp
next
  case (Suc n)
  have V: "length r < length s" if "parse_value N n s = Some (v, r)" for s v r
    using Suc that by blast
  have E: "length r + 1 < length s" if "parse_elems N n s = Some (vs, r)" for s vs r
    using Suc that by blast
  have M: "length r + 1 < length s" if "parse_members N n s = Some (ms, r)" for s ms r
    using Suc that by blast
  have "length r < length s" if "parse_value N (Suc n) s = Some (v, r)" for s v r
    using that
    by (auto split: list.splits if_splits
             dest!: skip_ws_Cons_length E M scan_string_length scan_number_length)
  moreover have "length r + 1 < length s" if "parse_elems N (Suc n) s = Some (vs, r)" for s vs r
    using that
    by (auto split: list.splits if_splits option.splits
             dest!: skip_ws_Cons_length E V)
  moreover have "length r + 1 < length s" if "parse_members N (Suc n) s = Some (ms, r)" for s ms r
    using that
    by (auto split: list.splits if_splits option.splits
             dest!: skip_ws_Cons_length M V scan_string_length)
  ultimately show ?case by blast
qed


lemma parse_value_length: "parse_value N n s = Some (v, r) \<Longrightarrow> length r < length s"
  using parse_consumes [of N n] by blast

lemma parse_elems_length: "parse_elems N n s = Some (vs, r) \<Longrightarrow> length r < length s"
  using parse_consumes [of N n] by fastforce

lemma parse_members_length: "parse_members N n s = Some (ms, r) \<Longrightarrow> length r < length s"
  using parse_consumes [of N n] by fastforce

lemma parse_fuel:
  "(\<forall>s m. 2 * length s < n \<and> 2 * length s < m \<longrightarrow> parse_value N n s = parse_value N m s) \<and>
   (\<forall>s m. 2 * length s + 1 < n \<and> 2 * length s + 1 < m \<longrightarrow> parse_elems N n s = parse_elems N m s) \<and>
   (\<forall>s m. 2 * length s + 1 < n \<and> 2 * length s + 1 < m \<longrightarrow>
      parse_members N n s = parse_members N m s)"
proof (induction n)
  case 0
  show ?case by simp
next
  case (Suc n)
  have V: "parse_value N n s = parse_value N m s"
    if "2 * length s < n" "2 * length s < m" for s m
    using Suc that by blast
  have E: "parse_elems N n s = parse_elems N m s"
    if "2 * length s + 1 < n" "2 * length s + 1 < m" for s m
    using Suc that by blast
  have M: "parse_members N n s = parse_members N m s"
    if "2 * length s + 1 < n" "2 * length s + 1 < m" for s m
    using Suc that by blast
  have "parse_value N (Suc n) s = parse_value N m s"
    if b: "2 * length s < Suc n" "2 * length s < m" for s m
  proof -
    from b obtain m' where m: "m = Suc m'" by (cases m) auto
    have "parse_members N n x = parse_members N m' x" "parse_elems N n x = parse_elems N m' x"
      if "length x < length s" for x
      using that b m by (auto intro!: M E)
    then show ?thesis
      unfolding m
      by (auto split: list.splits dest!: skip_ws_Cons_length)
  qed
  moreover have "parse_elems N (Suc n) s = parse_elems N m s"
    if b: "2 * length s + 1 < Suc n" "2 * length s + 1 < m" for s m
  proof -
    from b obtain m' where m: "m = Suc m'" by (cases m) auto
    have v: "parse_value N n s = parse_value N m' s"
      using b m by (auto intro!: V)
    have e: "parse_elems N n x = parse_elems N m' x" if "length x < length s" for x
      using that b m by (auto intro!: E)
    show ?thesis
    proof (cases "parse_value N m' s")
      case None
      with v show ?thesis by (simp add: m)
    next
      case pv: (Some vr)
      obtain u r where vr: "vr = (u, r)" by (cases vr)
      show ?thesis
      proof (cases "skip_ws r")
        case Nil
        with v pv vr show ?thesis by (simp add: m)
      next
        case s3: (Cons c cs)
        have "length cs < length s"
          using skip_ws_Cons_length [OF s3] parse_value_length [of N m' s u r] pv vr by simp
        from e [OF this] v pv vr s3 show ?thesis by (simp add: m)
      qed
    qed
  qed
  moreover have "parse_members N (Suc n) s = parse_members N m s"
    if b: "2 * length s + 1 < Suc n" "2 * length s + 1 < m" for s m
  proof -
    from b obtain m' where m: "m = Suc m'" by (cases m) auto
    have v: "parse_value N n x = parse_value N m' x" if "length x < length s" for x
      using that b m by (auto intro!: V)
    have w: "parse_members N n x = parse_members N m' x" if "length x < length s" for x
      using that b m by (auto intro!: M)
    show ?thesis
    proof (cases "skip_ws s")
      case Nil
      then show ?thesis by (simp add: m)
    next
      case s1: (Cons q qs)
      show ?thesis
      proof (cases "scan_string qs")
        case None
        with s1 show ?thesis by (simp add: m)
      next
        case (Some kr)
        obtain k r0 where kr: "kr = (k, r0)" by (cases kr)
        show ?thesis
        proof (cases "skip_ws r0")
          case Nil
          with s1 Some kr show ?thesis by (simp add: m)
        next
          case s2: (Cons p ps)
          have l1: "length ps < length s"
            using skip_ws_Cons_length [OF s1] skip_ws_Cons_length [OF s2]
              scan_string_length [of qs k r0] Some kr by simp
          show ?thesis
          proof (cases "parse_value N m' ps")
            case None
            with s1 Some kr s2 v [OF l1] show ?thesis by (simp add: m)
          next
            case pv: (Some vr)
            obtain u r where vr: "vr = (u, r)" by (cases vr)
            show ?thesis
            proof (cases "skip_ws r")
              case Nil
              with s1 Some kr s2 v [OF l1] pv vr show ?thesis by (simp add: m)
            next
              case s3: (Cons c cs)
              have "length cs < length s"
                using skip_ws_Cons_length [OF s3] parse_value_length [of N m' ps u r] pv vr l1
                by simp
              from w [OF this] s1 Some kr s2 v [OF l1] pv vr s3 show ?thesis
                by (simp add: m)
            qed
          qed
        qed
      qed
    qed
  qed
  ultimately show ?case by blast
qed

subsection \<open>Scanning what was printed\<close>

lemma takeWhile_digits_append:
  "no_digit_ahead ys \<Longrightarrow> takeWhile is_digit (takeWhile is_digit xs @ ys) = takeWhile is_digit xs"
  by (induction xs) (auto simp: no_digit_ahead_def split: list.splits)

lemma dropWhile_digits_append:
  "no_digit_ahead ys \<Longrightarrow> dropWhile is_digit (takeWhile is_digit xs @ ys) = ys"
  by (induction xs) (auto simp: no_digit_ahead_def split: list.splits)

lemma scan_int_append:
  assumes "scan_int s = Some (i, r)" "no_digit_ahead ys"
  shows "scan_int (i @ ys) = Some (i, ys)"
proof (cases s)
  case Nil
  with assms show ?thesis by (simp add: scan_int_def)
next
  case (Cons d r0)
  show ?thesis
  proof (cases "d = 48")
    case True
    with assms Cons show ?thesis by (auto simp: scan_int_def)
  next
    case False
    with assms Cons have "is_digit d" "i = d # takeWhile is_digit r0"
      by (auto simp: scan_int_def split: if_splits)
    with False assms(2) show ?thesis
      by (simp add: scan_int_def takeWhile_digits_append dropWhile_digits_append)
  qed
qed

lemma scan_frac_append:
  assumes "scan_frac s = Some (f, r)" "no_digit_ahead ys" "ys = [] \<or> hd ys \<noteq> 46"
  shows "scan_frac (f @ ys) = Some (f, ys)"
proof (cases "\<exists>r0. s = 46 # r0")
  case True
  then obtain r0 where s: "s = 46 # r0" by blast
  with assms have "takeWhile is_digit r0 \<noteq> []" "f = 46 # takeWhile is_digit r0"
    by (auto simp: scan_frac_def split: if_splits)
  with assms(2) show ?thesis
    by (simp add: scan_frac_def takeWhile_digits_append dropWhile_digits_append)
next
  case False
  with assms have "f = []"
    by (auto simp: scan_frac_def split: list.splits if_splits)
  with assms(3) show ?thesis
    by (auto simp: scan_frac_def split: list.splits)
qed

lemma scan_frac_shape: "scan_frac s = Some (f, r) \<Longrightarrow> f = [] \<or> hd f = 46"
  by (auto simp: scan_frac_def split: list.splits if_splits)

lemma scan_exp_digits_append:
  assumes "scan_exp_digits p s = Some (e, r)" "no_digit_ahead ys"
  shows "e = p @ takeWhile is_digit s \<and> takeWhile is_digit s \<noteq> [] \<and>
         scan_exp_digits p (takeWhile is_digit s @ ys) = Some (e, ys)"
  using assms
  by (auto simp: scan_exp_digits_def takeWhile_digits_append dropWhile_digits_append
           split: if_splits)

lemma takeWhile_digits_hd:
  "takeWhile is_digit s \<noteq> [] \<Longrightarrow> is_digit (hd (takeWhile is_digit s))"
  by (cases s) (auto split: if_splits)

lemma is_digit_simps [simp]: "\<not> is_digit 43" "\<not> is_digit 45" "\<not> is_digit 46"
  "\<not> is_digit 101" "\<not> is_digit 69"
  by (simp_all add: is_digit_def)

lemma scan_exp_append:
  assumes "scan_exp s = Some (e, r)" "no_digit_ahead ys"
    "ys = [] \<or> (hd ys \<noteq> 101 \<and> hd ys \<noteq> 69)"
  shows "scan_exp (e @ ys) = Some (e, ys)"
proof (cases "\<exists>c r0. s = c # r0 \<and> (c = 101 \<or> c = 69)")
  case True
  then obtain c r0 where s: "s = c # r0" and c: "c = 101 \<or> c = 69" by blast
  show ?thesis
  proof (cases r0)
    case Nil
    with assms s c show ?thesis by (auto simp: scan_exp_def)
  next
    case (Cons g r1)
    show ?thesis
    proof (cases "g = 43 \<or> g = 45")
      case True
      with assms(1) s c Cons have "scan_exp_digits [c, g] r1 = Some (e, r)"
        by (auto simp: scan_exp_def)
      from scan_exp_digits_append [OF this assms(2)] c True show ?thesis
        by (auto simp: scan_exp_def)
    next
      case False
      with assms(1) s c Cons have *: "scan_exp_digits [c] r0 = Some (e, r)"
        by (auto simp: scan_exp_def)
      from scan_exp_digits_append [OF this assms(2)]
      have e: "e = [c] @ takeWhile is_digit r0" and ne: "takeWhile is_digit r0 \<noteq> []"
        and sc: "scan_exp_digits [c] (takeWhile is_digit r0 @ ys) = Some (e, ys)"
        by auto
      from ne obtain h t where ht: "takeWhile is_digit r0 = h # t"
        by (cases "takeWhile is_digit r0") auto
      with takeWhile_digits_hd [OF ne] have "is_digit h" by simp
      then have "h \<noteq> 43" "h \<noteq> 45" by auto
      with e ht sc c show ?thesis
        by (auto simp: scan_exp_def)
    qed
  qed
next
  case False
  with assms have "e = []"
    by (auto simp: scan_exp_def split: list.splits if_splits)
  with assms(3) show ?thesis
    by (auto simp: scan_exp_def split: list.splits)
qed

lemma scan_exp_shape: "scan_exp s = Some (e, r) \<Longrightarrow> e = [] \<or> hd e = 101 \<or> hd e = 69"
  by (auto simp: scan_exp_def scan_exp_digits_def split: list.splits if_splits)


lemma num_stop_no_digit: "num_stop ys \<Longrightarrow> no_digit_ahead ys"
  by (auto simp: num_stop_def no_digit_ahead_def split: list.splits)

lemma no_digit_ahead_append:
  "x = [] \<or> \<not> is_digit (hd x) \<Longrightarrow> no_digit_ahead ys \<Longrightarrow> no_digit_ahead (x @ ys)"
  by (cases x) (auto simp: no_digit_ahead_def)

lemma scan_unsigned_append:
  assumes "scan_unsigned s = Some (t, r)" "num_stop ys"
  shows "scan_unsigned (t @ ys) = Some (t, ys)"
proof -
  from assms(1) obtain i r1 f r2 e where
    i: "scan_int s = Some (i, r1)" and f: "scan_frac r1 = Some (f, r2)" and
    e: "scan_exp r2 = Some (e, r)" and t: "t = i @ f @ e"
    by (auto simp: scan_unsigned_def split: option.splits)
  have nd: "no_digit_ahead ys" using assms(2) by (rule num_stop_no_digit)
  have e0: "e = [] \<or> \<not> is_digit (hd e)" using scan_exp_shape [OF e] by auto
  have f0: "f = [] \<or> \<not> is_digit (hd f)" using scan_frac_shape [OF f] by auto
  have nde: "no_digit_ahead (e @ ys)" using e0 nd by (rule no_digit_ahead_append)
  have ndf: "no_digit_ahead (f @ e @ ys)" using f0 nde by (rule no_digit_ahead_append)
  have "e @ ys = [] \<or> hd (e @ ys) \<noteq> 46"
    using scan_exp_shape [OF e] assms(2)
    by (cases e) (auto simp: num_stop_def split: list.splits)
  with f nde have 2: "scan_frac (f @ e @ ys) = Some (f, e @ ys)"
    by (rule scan_frac_append)
  have "ys = [] \<or> (hd ys \<noteq> 101 \<and> hd ys \<noteq> 69)"
    using assms(2) by (auto simp: num_stop_def split: list.splits)
  with e nd have 3: "scan_exp (e @ ys) = Some (e, ys)"
    by (rule scan_exp_append)
  from scan_int_append [OF i ndf] 2 3 show ?thesis
    by (simp add: scan_unsigned_def t)
qed

lemma scan_unsigned_nonempty: "scan_unsigned s = Some (t, r) \<Longrightarrow> t \<noteq> [] \<and> is_digit (hd t)"
  by (auto simp: scan_unsigned_def scan_int_def is_digit_def split: option.splits list.splits if_splits)

lemma scan_number_append:
  assumes "scan_number s = Some (t, r)" "num_stop ys"
  shows "scan_number (t @ ys) = Some (t, ys)"
proof (cases "\<exists>r0. s = 45 # r0")
  case True
  then obtain r0 where s: "s = 45 # r0" by blast
  with assms(1) obtain t0 where "scan_unsigned r0 = Some (t0, r)" "t = 45 # t0"
    by (auto simp: scan_number_def)
  with scan_unsigned_append [OF this(1) assms(2)] show ?thesis
    by (simp add: scan_number_def)
next
  case False
  with assms(1) have u: "scan_unsigned s = Some (t, r)"
    by (auto simp: scan_number_def split: list.splits if_splits)
  from scan_unsigned_nonempty [OF u] obtain h tl where ht: "t = h # tl" "is_digit h"
    by (cases t) auto
  then have "h \<noteq> 45" by auto
  with scan_unsigned_append [OF u assms(2)] ht show ?thesis
    by (simp add: scan_number_def)
qed

lemma scan_number_start:
  "scan_number s = Some (t, r) \<Longrightarrow> t \<noteq> [] \<and> (hd t = 45 \<or> is_digit (hd t))"
  by (auto simp: scan_number_def split: list.splits if_splits dest: scan_unsigned_nonempty)

subsection \<open>Strings\<close>

lemma hex_val_hex_digit: "n < 16 \<Longrightarrow> hex_val (hex_digit n) = Some n"
  by (auto simp: hex_val_def hex_digit_def)

lemma hex4_u_escape:
  assumes "c < 65536"
  shows "hex4 (hex_digit (c div 4096 mod 16)) (hex_digit (c div 256 mod 16))
              (hex_digit (c div 16 mod 16)) (hex_digit (c mod 16)) = Some c"
proof -
  have lt: "c div 4096 < 16" using assms by (simp add: less_mult_imp_div_less)
  then have a: "c div 4096 mod 16 = c div 4096" by simp
  have b: "c mod 4096 = 256 * (c div 256 mod 16) + c mod 256"
    using mod_mult2_eq [of c 256 16] by simp
  have d: "c mod 256 = 16 * (c div 16 mod 16) + c mod 16"
    using mod_mult2_eq [of c 16 16] by simp
  have "c = 4096 * (c div 4096) + c mod 4096" by simp
  with b d
  have "4096 * (c div 4096) + 256 * (c div 256 mod 16) + 16 * (c div 16 mod 16) + c mod 16 = c"
    by simp
  with lt show ?thesis
    by (simp add: hex4_def hex_val_hex_digit a)
qed

lemma scan_string_raw:
  "32 \<le> c \<Longrightarrow> c \<noteq> 34 \<Longrightarrow> c \<noteq> 92 \<Longrightarrow>
   scan_string (c # s) = map_option (\<lambda>(t, r'). (c # t, r')) (scan_string s)"
  by simp

lemma scan_string_simple:
  "simple_escape e = Some u \<Longrightarrow> e \<noteq> 117 \<Longrightarrow>
   scan_string (92 # e # s) = map_option (\<lambda>(t, r'). (u # t, r')) (scan_string s)"
  by simp

lemma scan_string_u:
  "hex4 a b h d = Some u \<Longrightarrow>
   scan_string (92 # 117 # a # b # h # d # s) = map_option (\<lambda>(t, r'). (u # t, r')) (scan_string s)"
  by simp

lemma simple_escape_vals:
  "simple_escape 98 = Some 8" "simple_escape 116 = Some 9" "simple_escape 110 = Some 10"
  "simple_escape 102 = Some 12" "simple_escape 114 = Some 13" "simple_escape 34 = Some 34"
  "simple_escape 92 = Some 92"
  by (simp_all add: simple_escape_def)

lemma scan_string_quote_unit:
  assumes "scan_string s = Some (t, r)"
  shows "scan_string (quote_unit c @ s) = Some (c # t, r)"
proof -
  consider "c = 8" | "c = 9" | "c = 10" | "c = 12" | "c = 13" | "c = 34" | "c = 92"
    | "c \<notin> {8, 9, 10, 12, 13, 34, 92}" "c < 32 \<or> is_high_surrogate c \<or> is_low_surrogate c"
    | "c \<notin> {8, 9, 10, 12, 13, 34, 92}" "\<not> (c < 32 \<or> is_high_surrogate c \<or> is_low_surrogate c)"
    by blast
  then show ?thesis
  proof cases
    case 1
    then show ?thesis
      by (simp only: quote_unit_def if_True append_Cons append_Nil)
         (simp add: scan_string_simple [OF simple_escape_vals(1)] assms del: scan_string.simps)
  next
    case 2
    then show ?thesis
      by (simp add: quote_unit_def scan_string_simple [OF simple_escape_vals(2)] assms
               del: scan_string.simps)
  next
    case 3
    then show ?thesis
      by (simp add: quote_unit_def scan_string_simple [OF simple_escape_vals(3)] assms
               del: scan_string.simps)
  next
    case 4
    then show ?thesis
      by (simp add: quote_unit_def scan_string_simple [OF simple_escape_vals(4)] assms
               del: scan_string.simps)
  next
    case 5
    then show ?thesis
      by (simp add: quote_unit_def scan_string_simple [OF simple_escape_vals(5)] assms
               del: scan_string.simps)
  next
    case 6
    then show ?thesis
      by (simp add: quote_unit_def scan_string_simple [OF simple_escape_vals(6)] assms
               del: scan_string.simps)
  next
    case 7
    then show ?thesis
      by (simp add: quote_unit_def scan_string_simple [OF simple_escape_vals(7)] assms
               del: scan_string.simps)
  next
    case 8
    then have "c < 65536"
      by (auto simp: is_high_surrogate_def is_low_surrogate_def)
    from hex4_u_escape [OF this] have
      "scan_string (u_escape c @ s) = Some (c # t, r)"
      by (simp add: u_escape_def scan_string_u assms del: scan_string.simps)
    with 8 show ?thesis
      by (simp add: quote_unit_def del: scan_string.simps)
  next
    case 9
    then have "32 \<le> c" "c \<noteq> 34" "c \<noteq> 92" by auto
    from scan_string_raw [OF this] 9 show ?thesis
      by (simp add: quote_unit_def assms del: scan_string.simps)
  qed
qed

lemma scan_string_quote_units: "scan_string (quote_units t @ 34 # r) = Some (t, r)"
proof (induction t rule: quote_units.induct)
  case 1
  show ?case by simp
next
  case (2 c)
  have "scan_string (34 # r) = Some ([], r)" by simp
  from scan_string_quote_unit [OF this] show ?case
    by (simp del: scan_string.simps)
next
  case (3 c d t)
  show ?case
  proof (cases "is_high_surrogate c \<and> is_low_surrogate d")
    case True
    then have "32 \<le> c" "c \<noteq> 34" "c \<noteq> 92" "32 \<le> d" "d \<noteq> 34" "d \<noteq> 92"
      by (auto simp: is_high_surrogate_def is_low_surrogate_def)
    from scan_string_raw [OF this(1-3)] scan_string_raw [OF this(4-6)] True 3(1)
    show ?thesis
      by (simp del: scan_string.simps)
  next
    case False
    with 3 have "scan_string (quote_units (d # t) @ 34 # r) = Some (d # t, r)" by simp
    from scan_string_quote_unit [OF this, of c]
    have "scan_string (quote_unit c @ quote_units (d # t) @ 34 # r) = Some (c # d # t, r)" .
    moreover have "quote_units (c # d # t) = quote_unit c @ quote_units (d # t)"
      using False by auto
    ultimately show ?thesis
      by (simp del: scan_string.simps quote_units.simps)
  qed
qed

lemma value_start_not_ws: "value_start c \<Longrightarrow> \<not> is_ws c"
  by (auto simp: value_start_def is_ws_def is_digit_def)

lemma skip_ws_start: "\<not> is_ws c \<Longrightarrow> skip_ws (c # cs) = c # cs"
  by (simp add: skip_ws_def)

lemma not_number_null: "\<not> is_number (js ''null'')"
  by (simp add: is_number_def js_def scan_number_def scan_unsigned_def scan_int_def is_digit_def)

lemma num_print_start:
  assumes "numeric_ok N"
  shows "\<exists>c cs. num_print N x = c # cs \<and> value_start c"
proof (cases "is_number (num_print N x)")
  case True
  then have "scan_number (num_print N x) = Some (num_print N x, [])" by (simp add: is_number_def)
  from scan_number_start [OF this] show ?thesis
    by (cases "num_print N x") (auto simp: value_start_def)
next
  case False
  with assms have "num_print N x = js ''null''" by (auto simp: numeric_ok_def)
  then show ?thesis by (simp add: js_def value_start_def)
qed

lemma stringify_start:
  "numeric_ok N \<Longrightarrow> \<exists>c cs. stringify N v = c # cs \<and> value_start c"
proof (cases v)
  case (JNum x)
  assume "numeric_ok N"
  from num_print_start [OF this, of x] JNum show ?thesis by simp
qed (simp_all add: value_start_def quote_def)

lemma parse_value_more: "2 * length s < n \<Longrightarrow> parse_value N n s = parse_value N (Suc n) s"
  using parse_fuel [where N = N and n = n, THEN conjunct1, rule_format, of s "Suc n"] by linarith

lemma parse_elems_more: "2 * length s + 1 < n \<Longrightarrow> parse_elems N n s = parse_elems N (Suc n) s"
  using parse_fuel [where N = N and n = n, THEN conjunct2, THEN conjunct1, rule_format, of s "Suc n"] by linarith

lemma parse_members_more: "2 * length s + 1 < n \<Longrightarrow> parse_members N n s = parse_members N (Suc n) s"
  using parse_fuel [where N = N and n = n, THEN conjunct2, THEN conjunct2, rule_format, of s "Suc n"] by linarith


subsection \<open>Property order\<close>

lemma lex_less_total:
  "length a = length b \<Longrightarrow> lex_less a b \<or> a = b \<or> lex_less b a"
  by (induction a b rule: list_induct2) auto

lemma lex_less_trans:
  "length a = length b \<Longrightarrow> length b = length c \<Longrightarrow> lex_less a b \<Longrightarrow> lex_less b c \<Longrightarrow>
   lex_less a c"
  by (induction a b c rule: list_induct3) auto

lemma idx_less_total: "idx_less a b \<or> a = b \<or> idx_less b a"
  using lex_less_total [of a b] by (auto simp: idx_less_def)

lemma idx_less_trans: "idx_less a b \<Longrightarrow> idx_less b c \<Longrightarrow> idx_less a c"
  using lex_less_trans [of a b c] by (auto simp: idx_less_def)

lemma ins_idx_keys: "set (map fst (ins_idx k v kvs)) = insert k (set (map fst kvs))"
proof (induction kvs)
  case Nil
  show ?case by simp
next
  case (Cons x kvs)
  obtain k' v' where x: "x = (k', v')" by (cases x)
  show ?case
  proof (cases "is_index k' \<and> idx_less k' k")
    case True
    then have "ins_idx k v (x # kvs) = (k', v') # ins_idx k v kvs" by (simp add: x)
    with Cons.IH show ?thesis by (simp add: x insert_commute del: set_map)
  next
    case False
    then have "ins_idx k v (x # kvs) = (k, v) # (k', v') # kvs" by (auto simp: x)
    then show ?thesis by (simp add: x)
  qed
qed

lemma ins_idx_append:
  "\<forall>x\<in>set kvs. is_index (fst x) \<and> idx_less (fst x) k \<Longrightarrow> ins_idx k v kvs = kvs @ [(k, v)]"
  by (induction kvs) auto

lemma keys_ok_snoc_index:
  "keys_ok (ks @ [k]) \<Longrightarrow> is_index k \<Longrightarrow> \<forall>x\<in>set ks. is_index x \<and> idx_less x k"
  by (induction ks) (auto split: if_splits)

lemma keys_ok_snoc: "keys_ok (ks @ [k]) \<Longrightarrow> keys_ok ks \<and> k \<notin> set ks"
  by (induction ks) (auto split: if_splits)

lemma keys_ok_snoc_plain:
  "keys_ok ks \<Longrightarrow> k \<notin> set ks \<Longrightarrow> \<not> is_index k \<Longrightarrow> keys_ok (ks @ [k])"
  by (induction ks) (auto split: if_splits)

lemma keys_ok_ins_idx:
  "keys_ok (map fst kvs) \<Longrightarrow> k \<notin> set (map fst kvs) \<Longrightarrow> is_index k \<Longrightarrow>
   keys_ok (map fst (ins_idx k v kvs))"
proof (induction kvs)
  case Nil
  then show ?case by simp
next
  case (Cons x kvs)
  obtain k' v' where x: "x = (k', v')" by (cases x)
  show ?case
  proof (cases "is_index k' \<and> idx_less k' k")
    case True
    with Cons x show ?thesis
      by (auto simp: ins_idx_keys simp del: set_map)
  next
    case False
    have k: "k \<noteq> k'" using Cons.prems x by auto
    have "idx_less k y" if y: "y \<in> set (map fst (x # kvs))" "is_index y" for y
    proof (cases "y = k'")
      case True
      with False y idx_less_total [of k k'] k show ?thesis by auto
    next
      case ne: False
      with y x have yin: "y \<in> set (map fst kvs)" by auto
      with Cons.prems(1) x y have ik: "is_index k'" "idx_less k' y"
        by (auto split: if_splits)
      with False idx_less_total [of k k'] k have "idx_less k k'" by auto
      with ik show ?thesis by (blast intro: idx_less_trans)
    qed
    with False Cons.prems x show ?thesis
      by (simp del: set_map)
  qed
qed

lemma obj_put_keys_ok:
  assumes "keys_ok (map fst kvs)"
  shows "keys_ok (map fst (obj_put k v kvs))"
proof (cases "k \<in> set (map fst kvs)")
  case True
  have e: "map fst (map (\<lambda>(k', v'). if k' = k then (k', v) else (k', v')) kvs) = map fst kvs"
    by (induction kvs) auto
  from True have "obj_put k v kvs = map (\<lambda>(k', v'). if k' = k then (k', v) else (k', v')) kvs"
    by (simp add: obj_put_def)
  with e assms show ?thesis by (simp only:)
next
  case False
  with assms show ?thesis
    by (auto simp: obj_put_def keys_ok_ins_idx keys_ok_snoc_plain simp del: set_map)
qed

lemma obj_put_snoc:
  assumes "keys_ok (map fst kvs @ [k])"
  shows "obj_put k v kvs = kvs @ [(k, v)]"
proof -
  from keys_ok_snoc [OF assms] have nin: "k \<notin> set (map fst kvs)" by simp
  show ?thesis
  proof (cases "is_index k")
    case True
    from keys_ok_snoc_index [OF assms True]
    have "\<forall>x\<in>set kvs. is_index (fst x) \<and> idx_less (fst x) k" by auto
    from ins_idx_append [OF this] nin True show ?thesis
      by (simp add: obj_put_def)
  next
    case False
    with nin show ?thesis by (simp add: obj_put_def)
  qed
qed

lemma obj_of_snoc: "obj_of (ms @ [(k, v)]) = obj_put k v (obj_of ms)"
  by (simp add: obj_of_def)

lemma obj_of_keys_ok: "keys_ok (map fst kvs) \<Longrightarrow> obj_of kvs = kvs"
proof (induction kvs rule: rev_induct)
  case Nil
  show ?case by (simp add: obj_of_def)
next
  case (snoc x kvs)
  obtain k v where x: "x = (k, v)" by (cases x)
  from snoc.prems x have ok: "keys_ok (map fst kvs @ [k])" by simp
  from keys_ok_snoc [OF ok] snoc.IH have "obj_of kvs = kvs" by simp
  with obj_put_snoc [OF ok] show ?case
    by (simp add: x obj_of_snoc)
qed

lemma keys_ok_obj_of: "keys_ok (map fst (obj_of ms))"
proof (induction ms rule: rev_induct)
  case Nil
  show ?case by (simp add: obj_of_def)
next
  case (snoc x ms)
  obtain k v where x: "x = (k, v)" by (cases x)
  from obj_put_keys_ok [OF snoc.IH] show ?case
    by (simp add: x obj_of_snoc)
qed

subsection \<open>Parsing a printed value\<close>

lemma is_ws_simps [simp]:
  "\<not> is_ws 34" "\<not> is_ws 44" "\<not> is_ws 58" "\<not> is_ws 91" "\<not> is_ws 93" "\<not> is_ws 123" "\<not> is_ws 125"
  "\<not> is_ws 110" "\<not> is_ws 116" "\<not> is_ws 102"
  by (simp_all add: is_ws_def)

lemma skip_ws_simps [simp]:
  "skip_ws (34 # s) = 34 # s" "skip_ws (44 # s) = 44 # s" "skip_ws (58 # s) = 58 # s"
  "skip_ws (91 # s) = 91 # s" "skip_ws (93 # s) = 93 # s" "skip_ws (123 # s) = 123 # s"
  "skip_ws (125 # s) = 125 # s" "skip_ws (110 # s) = 110 # s" "skip_ws (116 # s) = 116 # s"
  "skip_ws (102 # s) = 102 # s" "skip_ws [] = []"
  by (simp_all add: skip_ws_def)

lemma pv_null: "parse_value N (Suc n) (110 # 117 # 108 # 108 # r) = Some (JNull, r)"
  by simp

lemma pv_true: "parse_value N (Suc n) (116 # 114 # 117 # 101 # r) = Some (JBool True, r)"
  by simp

lemma pv_false: "parse_value N (Suc n) (102 # 97 # 108 # 115 # 101 # r) = Some (JBool False, r)"
  by simp

lemma pv_str:
  "parse_value N (Suc n) (34 # s) = map_option (\<lambda>(t, r). (JStr t, r)) (scan_string s)"
  by simp

lemma pv_num:
  "c = 45 \<or> is_digit c \<Longrightarrow>
   parse_value N (Suc n) (c # s)
   = map_option (\<lambda>(t, r). (JNum (num_read N t), r)) (scan_number (c # s))"
  by (auto simp: skip_ws_def is_ws_def is_digit_def)

lemma pv_arr_empty: "parse_value N (Suc n) (91 # 93 # r) = Some (JArr [], r)"
  by simp

lemma pv_arr:
  "value_start d \<Longrightarrow>
   parse_value N (Suc n) (91 # d # ds) = map_option (\<lambda>(vs, r). (JArr vs, r)) (parse_elems N n (d # ds))"
  using value_start_not_ws [of d]
  by (auto simp: skip_ws_start value_start_def is_digit_def)

lemma pv_obj_empty: "parse_value N (Suc n) (123 # 125 # r) = Some (JObj [], r)"
  by simp

lemma pv_obj:
  "parse_value N (Suc n) (123 # 34 # ds) =
   map_option (\<lambda>(ms, r). (JObj (obj_of ms), r)) (parse_members N n (34 # ds))"
  by simp

lemma pe_more:
  "parse_value N n s = Some (v, 44 # cs) \<Longrightarrow>
   parse_elems N (Suc n) s = map_option (\<lambda>(vs, r'). (v # vs, r')) (parse_elems N n cs)"
  by simp

lemma pe_last: "parse_value N n s = Some (v, 93 # cs) \<Longrightarrow> parse_elems N (Suc n) s = Some ([v], cs)"
  by simp

lemma pm_more:
  "scan_string qs = Some (k, 58 # ps) \<Longrightarrow> parse_value N n ps = Some (v, 44 # cs) \<Longrightarrow>
   parse_members N (Suc n) (34 # qs) =
   map_option (\<lambda>(ms, r'). ((k, v) # ms, r')) (parse_members N n cs)"
  by simp

lemma pm_last:
  "scan_string qs = Some (k, 58 # ps) \<Longrightarrow> parse_value N n ps = Some (v, 125 # cs) \<Longrightarrow>
   parse_members N (Suc n) (34 # qs) = Some ([(k, v)], cs)"
  by simp

lemma num_stop_simps [simp]: "num_stop []" "num_stop (44 # r)" "num_stop (93 # r)" "num_stop (125 # r)"
  by (simp_all add: num_stop_def is_digit_def)

lemma stringify_elems_start:
  "numeric_ok N \<Longrightarrow> vs \<noteq> [] \<Longrightarrow> \<exists>c cs. stringify_elems N vs = c # cs \<and> value_start c"
proof (cases vs)
  case Nil
  assume "vs \<noteq> []"
  with Nil show ?thesis by simp
next
  case (Cons v ws)
  assume "numeric_ok N"
  from stringify_start [OF this, of v] obtain c cs where "stringify N v = c # cs" "value_start c"
    by blast
  with Cons show ?thesis by (cases ws) auto
qed

lemma stringify_members_start:
  "kvs \<noteq> [] \<Longrightarrow> \<exists>cs. stringify_members N kvs = 34 # cs"
proof (cases kvs)
  case Nil
  assume "kvs \<noteq> []"
  with Nil show ?thesis by simp
next
  case (Cons x ms)
  obtain k v where "x = (k, v)" by (cases x)
  with Cons show ?thesis by (cases ms) (auto simp: quote_def)
qed


lemmas parse_simps_del = parse_value.simps parse_elems.simps parse_members.simps

lemma pv_lift: "2 * length s < n \<Longrightarrow> parse_value N (Suc n) s = r \<Longrightarrow> parse_value N n s = r"
  using parse_value_more [of s n] by (rule trans)

lemma pe_lift: "2 * length s + 1 < n \<Longrightarrow> parse_elems N (Suc n) s = r \<Longrightarrow> parse_elems N n s = r"
  using parse_elems_more [of s n] by (rule trans)

lemma pm_lift: "2 * length s + 1 < n \<Longrightarrow> parse_members N (Suc n) s = r \<Longrightarrow> parse_members N n s = r"
  using parse_members_more [of s n] by (rule trans)

lemma reread_members_keys: "map fst (reread_members N kvs) = map fst kvs"
  by (induction kvs) auto

lemma parse_stringify_aux:
  "numeric_ok N \<longrightarrow> wf_json v \<longrightarrow>
     (\<forall>n rest. num_stop rest \<longrightarrow> 2 * length (stringify N v @ rest) < n \<longrightarrow>
      parse_value N n (stringify N v @ rest) = Some (reread N v, rest))"
  "numeric_ok N \<longrightarrow> wf_elems vs \<longrightarrow> vs \<noteq> [] \<longrightarrow>
     (\<forall>n rest. 2 * length (stringify_elems N vs @ 93 # rest) + 1 < n \<longrightarrow>
      parse_elems N n (stringify_elems N vs @ 93 # rest) = Some (reread_elems N vs, rest))"
  "numeric_ok N \<longrightarrow> wf_members kvs \<longrightarrow> kvs \<noteq> [] \<longrightarrow>
     (\<forall>n rest. 2 * length (stringify_members N kvs @ 125 # rest) + 1 < n \<longrightarrow>
      parse_members N n (stringify_members N kvs @ 125 # rest)
        = Some (reread_members N kvs, rest))"
proof (induction N v and N vs and N kvs rule: stringify_stringify_elems_stringify_members.induct)
  case (1 N)
  show ?case
  proof (intro impI allI)
    fix n rest
    assume "2 * length (stringify N JNull @ rest) < n"
    then show "parse_value N n (stringify N JNull @ rest) = Some (reread N JNull, rest)"
      by (rule pv_lift) (simp add: pv_null del: parse_simps_del)
  qed
next
  case (2 N b)
  show ?case
  proof (intro impI allI)
    fix n rest
    assume "2 * length (stringify N (JBool b) @ rest) < n"
    then show "parse_value N n (stringify N (JBool b) @ rest) = Some (reread N (JBool b), rest)"
      by (rule pv_lift) (simp add: pv_true pv_false del: parse_simps_del)
  qed
next
  case (3 N x)
  show ?case
  proof (intro impI allI)
    fix n rest
    assume ok: "numeric_ok N" and st: "num_stop rest"
      and n: "2 * length (stringify N (JNum x) @ rest) < n"
    show "parse_value N n (stringify N (JNum x) @ rest) = Some (reread N (JNum x), rest)"
    proof (cases "is_number (num_print N x)")
      case True
      then have sc: "scan_number (num_print N x) = Some (num_print N x, [])"
        by (simp add: is_number_def)
      from scan_number_start [OF sc] obtain c cs where t: "num_print N x = c # cs"
        "c = 45 \<or> is_digit c"
        by (cases "num_print N x") auto
      from scan_number_append [OF sc st] pv_num [OF t(2), of N n "cs @ rest"] t(1)
      have "parse_value N (Suc n) (num_print N x @ rest)
            = Some (JNum (num_read N (num_print N x)), rest)"
        by (simp del: parse_simps_del)
      with True show ?thesis
        by (intro pv_lift [OF n]) (simp del: parse_simps_del)
    next
      case False
      with ok have "num_print N x = js ''null''" by (auto simp: numeric_ok_def)
      with False show ?thesis
        by (intro pv_lift [OF n]) (simp add: js_def pv_null del: parse_simps_del)
    qed
  qed
next
  case (4 N t)
  show ?case
  proof (intro impI allI)
    fix n rest
    assume "2 * length (stringify N (JStr t) @ rest) < n"
    then show "parse_value N n (stringify N (JStr t) @ rest) = Some (reread N (JStr t), rest)"
      by (rule pv_lift)
         (simp add: pv_str quote_def scan_string_quote_units del: parse_simps_del)
  qed
next
  case (5 N vs)
  show ?case
  proof (intro impI allI)
    fix n rest
    assume ok: "numeric_ok N" and wf: "wf_json (JArr vs)"
      and n: "2 * length (stringify N (JArr vs) @ rest) < n"
    show "parse_value N n (stringify N (JArr vs) @ rest) = Some (reread N (JArr vs), rest)"
    proof (cases "vs = []")
      case True
      then show ?thesis
        by (intro pv_lift [OF n]) (simp add: pv_arr_empty del: parse_simps_del)
    next
      case False
      from wf have wfe: "wf_elems vs" by simp
      from stringify_elems_start [OF ok False] obtain d ds where
        d: "stringify_elems N vs = d # ds" "value_start d" by blast
      from n have "2 * length (stringify_elems N vs @ 93 # rest) + 1 < n" by simp
      with 5 ok wfe False
      have "parse_elems N n (stringify_elems N vs @ 93 # rest) = Some (reread_elems N vs, rest)"
        by blast
      with d pv_arr [OF d(2), of N n "ds @ 93 # rest"]
      have "parse_value N (Suc n) (stringify N (JArr vs) @ rest) = Some (reread N (JArr vs), rest)"
        by (simp del: parse_simps_del)
      then show ?thesis
        by (intro pv_lift [OF n]) (simp del: parse_simps_del)
    qed
  qed
next
  case (6 N kvs)
  show ?case
  proof (intro impI allI)
    fix n rest
    assume ok: "numeric_ok N" and wf: "wf_json (JObj kvs)"
      and n: "2 * length (stringify N (JObj kvs) @ rest) < n"
    show "parse_value N n (stringify N (JObj kvs) @ rest) = Some (reread N (JObj kvs), rest)"
    proof (cases "kvs = []")
      case True
      then show ?thesis
        by (intro pv_lift [OF n]) (simp add: pv_obj_empty del: parse_simps_del)
    next
      case False
      from wf have wfm: "wf_members kvs" and "keys_ok (map fst kvs)" by simp_all
      then have ok': "keys_ok (map fst (reread_members N kvs))"
        by (simp only: reread_members_keys)
      from stringify_members_start [OF False] obtain ds where
        d: "stringify_members N kvs = 34 # ds" by blast
      from n have "2 * length (stringify_members N kvs @ 125 # rest) + 1 < n" by simp
      with 6 ok wfm False
      have "parse_members N n (stringify_members N kvs @ 125 # rest)
            = Some (reread_members N kvs, rest)" by blast
      with d pv_obj [of N n "ds @ 125 # rest"] obj_of_keys_ok [OF ok']
      have "parse_value N (Suc n) (stringify N (JObj kvs) @ rest) = Some (reread N (JObj kvs), rest)"
        by (simp del: parse_simps_del)
      then show ?thesis
        by (intro pv_lift [OF n]) (simp del: parse_simps_del)
    qed
  qed
next
  case (7 N)
  show ?case by simp
next
  case (8 N v)
  show ?case
  proof (intro impI allI)
    fix n rest
    assume ok: "numeric_ok N" and wf: "wf_elems [v]"
      and n: "2 * length (stringify_elems N [v] @ 93 # rest) + 1 < n"
    from wf have "wf_json v" by simp
    moreover from n have "2 * length (stringify N v @ 93 # rest) < n" by simp
    ultimately have "parse_value N n (stringify N v @ 93 # rest) = Some (reread N v, 93 # rest)"
      using 8 ok by simp
    from pe_last [OF this]
    show "parse_elems N n (stringify_elems N [v] @ 93 # rest) = Some (reread_elems N [v], rest)"
      by (intro pe_lift [OF n]) (simp del: parse_simps_del)
  qed
next
  case (9 N v w vs)
  show ?case
  proof (intro impI allI)
    fix n rest
    let ?tl = "stringify_elems N (w # vs) @ 93 # rest"
    assume ok: "numeric_ok N" and wf: "wf_elems (v # w # vs)"
      and n: "2 * length (stringify_elems N (v # w # vs) @ 93 # rest) + 1 < n"
    from wf have "wf_json v" "wf_elems (w # vs)" by simp_all
    moreover from n have "2 * length (stringify N v @ 44 # ?tl) < n" "2 * length ?tl + 1 < n"
      by simp_all
    ultimately have a: "parse_value N n (stringify N v @ 44 # ?tl) = Some (reread N v, 44 # ?tl)"
      and b: "parse_elems N n ?tl = Some (reread_elems N (w # vs), rest)"
      using 9 ok by simp_all
    from pe_more [OF a] b
    show "parse_elems N n (stringify_elems N (v # w # vs) @ 93 # rest)
          = Some (reread_elems N (v # w # vs), rest)"
      by (intro pe_lift [OF n]) (simp del: parse_simps_del)
  qed
next
  case (10 N)
  show ?case by simp
next
  case (11 N k v)
  show ?case
  proof (intro impI allI)
    fix n rest
    assume ok: "numeric_ok N" and wf: "wf_members [(k, v)]"
      and n: "2 * length (stringify_members N [(k, v)] @ 125 # rest) + 1 < n"
    from wf have "wf_json v" by simp
    moreover from n have "2 * length (stringify N v @ 125 # rest) < n" by simp
    ultimately have a: "parse_value N n (stringify N v @ 125 # rest) = Some (reread N v, 125 # rest)"
      using 11 ok by simp
    have s: "scan_string (quote_units k @ 34 # 58 # stringify N v @ 125 # rest)
             = Some (k, 58 # stringify N v @ 125 # rest)"
      by (rule scan_string_quote_units)
    from pm_last [OF s a]
    show "parse_members N n (stringify_members N [(k, v)] @ 125 # rest)
          = Some (reread_members N [(k, v)], rest)"
      by (intro pm_lift [OF n]) (simp add: quote_def del: parse_simps_del)
  qed
next
  case (12 N k v m ms)
  show ?case
  proof (intro impI allI)
    fix n rest
    let ?tl = "stringify_members N (m # ms) @ 125 # rest"
    assume ok: "numeric_ok N" and wf: "wf_members ((k, v) # m # ms)"
      and n: "2 * length (stringify_members N ((k, v) # m # ms) @ 125 # rest) + 1 < n"
    from wf have "wf_json v" "wf_members (m # ms)" by simp_all
    moreover from n have "2 * length (stringify N v @ 44 # ?tl) < n" "2 * length ?tl + 1 < n"
      by simp_all
    ultimately have a: "parse_value N n (stringify N v @ 44 # ?tl) = Some (reread N v, 44 # ?tl)"
      and b: "parse_members N n ?tl = Some (reread_members N (m # ms), rest)"
      using 12 ok by simp_all
    have s: "scan_string (quote_units k @ 34 # 58 # stringify N v @ 44 # ?tl)
             = Some (k, 58 # stringify N v @ 44 # ?tl)"
      by (rule scan_string_quote_units)
    from pm_more [OF s a] b
    show "parse_members N n (stringify_members N ((k, v) # m # ms) @ 125 # rest)
          = Some (reread_members N ((k, v) # m # ms), rest)"
      by (intro pm_lift [OF n]) (simp add: quote_def del: parse_simps_del)
  qed
qed

lemma JSON_parse_stringify:
  "numeric_ok N \<Longrightarrow> wf_json v \<Longrightarrow> JSON_parse N (stringify N v) = Some (reread N v)"
  using parse_stringify_aux(1) [of N v, rule_format, of "[]" "Suc (2 * length (stringify N v))"]
  by (simp add: JSON_parse_def del: parse_simps_del)

subsection \<open>Printing what was read back\<close>

lemma stringify_reread_aux:
  "numeric_ok N \<longrightarrow> stringify N (reread N v) = stringify N v"
  "numeric_ok N \<longrightarrow> stringify_elems N (reread_elems N vs) = stringify_elems N vs"
  "numeric_ok N \<longrightarrow> stringify_members N (reread_members N kvs) = stringify_members N kvs"
proof (induction N v and N vs and N kvs rule: stringify_stringify_elems_stringify_members.induct)
  case (3 N x)
  show ?case
  proof
    assume ok: "numeric_ok N"
    show "stringify N (reread N (JNum x)) = stringify N (JNum x)"
    proof (cases "is_number (num_print N x)")
      case True
      with ok show ?thesis by (simp add: numeric_ok_def)
    next
      case False
      with ok have "num_print N x = js ''null''" by (auto simp: numeric_ok_def)
      with False show ?thesis by (simp add: js_def)
    qed
  qed
next
  case (12 N k v m ms)
  obtain k' v' where m: "m = (k', v')" by (cases m)
  from 12 show ?case by (simp add: m)
qed simp_all

lemma stringify_reread: "numeric_ok N \<Longrightarrow> stringify N (reread N v) = stringify N v"
  using stringify_reread_aux(1) [of N v] by simp

lemma wf_reread_aux:
  "wf_json (reread N v) = wf_json v"
  "wf_elems (reread_elems N vs) = wf_elems vs"
  "wf_members (reread_members N kvs) = wf_members kvs"
  by (induction N v and N vs and N kvs rule: reread_reread_elems_reread_members.induct)
     (simp_all add: reread_members_keys)

subsection \<open>Parsed values are well formed\<close>

lemma wf_elems_iff: "wf_elems vs \<longleftrightarrow> (\<forall>v\<in>set vs. wf_json v)"
  by (induction vs) auto

lemma wf_members_iff: "wf_members kvs \<longleftrightarrow> (\<forall>x\<in>set kvs. wf_json (snd x))"
  by (induction kvs) auto

lemma ins_idx_set: "set (ins_idx k v kvs) = insert (k, v) (set kvs)"
  by (induction kvs) (auto split: if_splits)

lemma obj_put_values: "x \<in> set (obj_put k v kvs) \<Longrightarrow> snd x = v \<or> x \<in> set kvs"
  by (auto simp: obj_put_def ins_idx_set split: if_splits)

lemma wf_members_obj_put: "wf_members kvs \<Longrightarrow> wf_json v \<Longrightarrow> wf_members (obj_put k v kvs)"
  unfolding wf_members_iff using obj_put_values by blast

lemma wf_members_obj_of: "wf_members ms \<Longrightarrow> wf_members (obj_of ms)"
proof (induction ms rule: rev_induct)
  case Nil
  show ?case by (simp add: obj_of_def)
next
  case (snoc x ms)
  obtain k v where x: "x = (k, v)" by (cases x)
  from snoc.prems have "wf_members ms" "wf_json v"
    by (auto simp: wf_members_iff x)
  with snoc.IH show ?case
    by (simp add: x obj_of_snoc wf_members_obj_put)
qed

lemma scan_number_is_number: "scan_number s = Some (t, r) \<Longrightarrow> is_number t"
  using scan_number_append [of s t r "[]"] by (simp add: is_number_def)

lemma parse_wf:
  "(\<forall>s v r. parse_value N n s = Some (v, r) \<longrightarrow> wf_json v) \<and>
   (\<forall>s vs r. parse_elems N n s = Some (vs, r) \<longrightarrow> wf_elems vs) \<and>
   (\<forall>s ms r. parse_members N n s = Some (ms, r) \<longrightarrow> wf_members ms)"
proof (induction n)
  case 0
  show ?case by simp
next
  case (Suc n)
  have V: "wf_json v" if "parse_value N n s = Some (v, r)" for s v r
    using Suc that by blast
  have E: "wf_elems vs" if "parse_elems N n s = Some (vs, r)" for s vs r
    using Suc that by blast
  have M: "wf_members ms" if "parse_members N n s = Some (ms, r)" for s ms r
    using Suc that by blast
  have "wf_json v" if "parse_value N (Suc n) s = Some (v, r)" for s v r
    using that
    by (auto split: list.splits if_splits
             simp: keys_ok_obj_of
             dest!: E M intro: wf_members_obj_of)
  moreover have "wf_elems vs" if "parse_elems N (Suc n) s = Some (vs, r)" for s vs r
    using that
    by (auto split: list.splits if_splits option.splits dest!: V E)
  moreover have "wf_members ms" if "parse_members N (Suc n) s = Some (ms, r)" for s ms r
    using that
    by (auto split: list.splits if_splits option.splits dest!: V M)
  ultimately show ?case by blast
qed

lemma parse_value_wf: "parse_value N n s = Some (v, r) \<Longrightarrow> wf_json v"
  using parse_wf [of N n] by blast

lemma JSON_parse_wf: "JSON_parse N s = Some v \<Longrightarrow> wf_json v"
  by (auto simp: JSON_parse_def split: option.splits if_splits simp del: parse_simps_del
           dest: parse_value_wf)

section \<open>Properties of optimizeCanvasData\<close>

lemma lines_array_Some:
  "lines_array v = Some ls \<longleftrightarrow> (\<exists>kvs. v = JObj kvs \<and> map_of kvs (js ''lines'') = Some (JArr ls))"
  by (auto simp: lines_array_def split: json.splits option.splits)

lemma has_lines_iff: "has_lines N v \<longleftrightarrow> lines_array v \<noteq> None"
proof (cases v)
  case (JObj kvs)
  show ?thesis
  proof (cases "map_of kvs (js ''lines'')")
    case None
    with JObj show ?thesis by (simp add: has_lines_def lines_array_def)
  next
    case (Some l)
    with JObj show ?thesis by (cases l) (simp_all add: has_lines_def lines_array_def)
  qed
qed (simp_all add: has_lines_def lines_array_def)

lemma lines_of_eq: "lines_array v = Some ls \<Longrightarrow> lines_of v = ls"
  by (auto simp: lines_array_Some lines_of_def)

lemma line_kept_iff: "line_kept N l \<longleftrightarrow> has_points l"
proof (cases l)
  case (JObj kvs)
  show ?thesis
  proof (cases "map_of kvs (js ''points'')")
    case None
    with JObj show ?thesis by (simp add: line_kept_def has_points_def)
  next
    case (Some p)
    with JObj show ?thesis by (cases p) (simp_all add: line_kept_def has_points_def)
  qed
qed (simp_all add: line_kept_def has_points_def)

lemma map_of_keys: "map_of kvs k = Some v \<Longrightarrow> k \<in> set (map fst kvs)"
  by (induction kvs) (auto split: if_splits)

lemma obj_put_lines:
  "map_of kvs (js ''lines'') = Some l \<Longrightarrow> obj_put (js ''lines'') (JArr ls) kvs = with_lines ls kvs"
  using map_of_keys [of kvs "js ''lines''" l] by (simp add: obj_put_def with_lines_def)

lemma with_lines_keys: "map fst (with_lines ls kvs) = map fst kvs"
  by (induction kvs) (auto simp: with_lines_def)

lemma map_of_with_lines:
  "map_of kvs (js ''lines'') = Some l \<Longrightarrow> map_of (with_lines ls kvs) (js ''lines'') = Some (JArr ls)"
  by (induction kvs) (auto simp: with_lines_def split: if_splits)


lemma with_lines_twice: "with_lines ls (with_lines ls' kvs) = with_lines ls kvs"
  by (induction kvs) (auto simp: with_lines_def)

lemma wf_with_lines:
  assumes "wf_json (JObj kvs)" "\<forall>l\<in>set ls. wf_json l"
  shows "wf_json (JObj (with_lines ls kvs))"
proof -
  have "wf_members (with_lines ls kvs)"
    using assms by (auto simp: wf_members_iff wf_elems_iff with_lines_def split: if_splits)
  with assms(1) show ?thesis by (simp add: with_lines_keys)
qed

lemma wf_lines_array:
  "wf_json v \<Longrightarrow> lines_array v = Some ls \<Longrightarrow> \<forall>l\<in>set ls. wf_json l"
proof -
  assume wf: "wf_json v" and "lines_array v = Some ls"
  then obtain kvs where v: "v = JObj kvs" and m: "map_of kvs (js ''lines'') = Some (JArr ls)"
    by (auto simp: lines_array_Some)
  from m have "(js ''lines'', JArr ls) \<in> set kvs" by (rule map_of_SomeD)
  with wf v have "wf_json (JArr ls)" by (auto simp: wf_members_iff)
  then show ?thesis by (simp add: wf_elems_iff)
qed

subsection \<open>Blank strings\<close>

lemma js_trim_Nil_iff: "js_trim s = [] \<longleftrightarrow> (\<forall>c\<in>set s. is_js_space c)"
proof -
  have "dropWhile is_js_space s = []" if all: "\<forall>x\<in>set (dropWhile is_js_space s). is_js_space x"
  proof (rule ccontr)
    assume ne: "dropWhile is_js_space s \<noteq> []"
    then have "hd (dropWhile is_js_space s) \<in> set (dropWhile is_js_space s)" by simp
    with all hd_dropWhile [OF ne] show False by blast
  qed
  note B = this
  have A: "js_trim s = [] \<longleftrightarrow> (\<forall>x\<in>set (dropWhile is_js_space s). is_js_space x)"
    unfolding js_trim_def by (simp only: rev_is_Nil_conv dropWhile_eq_Nil_conv set_rev)
  show ?thesis
  proof
    assume "js_trim s = []"
    with A have "\<forall>x\<in>set (dropWhile is_js_space s). is_js_space x" by (rule iffD1)
    then have "dropWhile is_js_space s = []" by (rule B)
    then show "\<forall>c\<in>set s. is_js_space c" by (simp only: dropWhile_eq_Nil_conv)
  next
    assume "\<forall>c\<in>set s. is_js_space c"
    then have "\<forall>x\<in>set (dropWhile is_js_space s). is_js_space x"
      by (blast dest: set_dropWhileD)
    with A show "js_trim s = []" by (rule iffD2)
  qed
qed

lemma value_start_not_js_space: "value_start c \<Longrightarrow> \<not> is_js_space c"
  by (auto simp: value_start_def is_js_space_def is_digit_def)

lemma not_blank: "c \<in> set s \<Longrightarrow> value_start c \<Longrightarrow> s \<noteq> [] \<and> js_trim s \<noteq> []"
  using value_start_not_js_space [of c] by (auto simp: js_trim_Nil_iff)

lemma stringify_not_blank:
  "numeric_ok N \<Longrightarrow> stringify N v \<noteq> [] \<and> js_trim (stringify N v) \<noteq> []"
proof -
  assume "numeric_ok N"
  from stringify_start [OF this, of v] obtain c cs where "stringify N v = c # cs" "value_start c"
    by blast
  then show ?thesis using not_blank [of c "stringify N v"] by simp
qed

lemma scan_number_first: "scan_number (c # cs) = Some (t, r) \<Longrightarrow> c = 45 \<or> is_digit c"
  by (auto simp: scan_number_def scan_unsigned_def scan_int_def is_digit_def
           split: if_splits option.splits)

lemma parse_value_first:
  assumes "parse_value N n s = Some (v, r)"
  shows "\<exists>c cs. skip_ws s = c # cs \<and> value_start c"
proof (cases n)
  case 0
  with assms show ?thesis by simp
next
  case (Suc m)
  with assms obtain c cs where sk: "skip_ws s = c # cs"
    by (cases "skip_ws s") auto
  have "value_start c"
  proof (rule ccontr)
    assume nv: "\<not> value_start c"
    then have "c \<noteq> 123" "c \<noteq> 91" "c \<noteq> 34" "c \<noteq> 116" "c \<noteq> 102" "c \<noteq> 110"
      "\<not> (c = 45 \<or> is_digit c)"
      by (auto simp: value_start_def)
    with assms Suc sk scan_number_first [of c cs] show False
      by (auto split: if_splits)
  qed
  with sk show ?thesis by blast
qed

lemma JSON_parse_not_blank:
  assumes "JSON_parse N s = Some v"
  shows "s \<noteq> [] \<and> js_trim s \<noteq> []"
proof -
  from assms obtain r where "parse_value N (Suc (2 * length s)) s = Some (v, r)"
    by (auto simp: JSON_parse_def split: option.splits if_splits simp del: parse_simps_del)
  from parse_value_first [OF this] obtain c cs where sk: "skip_ws s = c # cs" "value_start c"
    by blast
  then have "c \<in> set (dropWhile is_ws s)" by (simp add: skip_ws_def)
  then have "c \<in> set s" by (rule set_dropWhileD)
  from this sk(2) show ?thesis by (rule not_blank)
qed


subsection \<open>Reading a printed buffer back keeps its shape\<close>

lemma reread_elems_map: "reread_elems N vs = map (reread N) vs"
  by (induction vs) auto

lemma reread_members_map: "reread_members N kvs = map (\<lambda>(k, v). (k, reread N v)) kvs"
  by (induction kvs) auto

lemma map_of_reread: "map_of (reread_members N kvs) k = map_option (reread N) (map_of kvs k)"
  by (induction kvs) auto

lemma has_points_reread: "has_points (reread N l) = has_points l"
proof (cases l)
  case (JObj kvs)
  show ?thesis
  proof (cases "map_of kvs (js ''points'')")
    case None
    with JObj show ?thesis by (simp add: has_points_def map_of_reread)
  next
    case (Some p)
    with JObj show ?thesis
      by (cases p) (simp_all add: has_points_def map_of_reread reread_elems_map)
  qed
qed (simp_all add: has_points_def)

lemma lines_array_reread:
  "lines_array v = Some ls \<Longrightarrow> lines_array (reread N v) = Some (reread_elems N ls)"
  by (auto simp: lines_array_Some map_of_reread)

lemma filter_has_points_reread:
  "filter has_points (reread_elems N ls) = reread_elems N (filter has_points ls)"
  by (induction ls) (auto simp: has_points_reread)

lemma reread_with_lines:
  "reread_members N (with_lines ls kvs) = with_lines (reread_elems N ls) (reread_members N kvs)"
  by (induction kvs) (auto simp: with_lines_def)

lemmas parse_numeral =
  parse_value.simps(2) [of _ "pred_numeral k" for k, folded numeral_eq_Suc]
  parse_elems.simps(2) [of _ "pred_numeral k" for k, folded numeral_eq_Suc]
  parse_members.simps(2) [of _ "pred_numeral k" for k, folded numeral_eq_Suc]

lemmas json_eval = js_def JSON_parse_def skip_ws_def is_ws_def scan_number_def scan_unsigned_def
  scan_int_def scan_frac_def scan_exp_def scan_exp_digits_def is_digit_def parse_numeral
  obj_of_def obj_put_def is_index_def idx_less_def max_index_def hex4_def hex_val_def
  simple_escape_def quote_def quote_unit_def u_escape_def hex_digit_def is_high_surrogate_def
  is_low_surrogate_def

lemmas lit_eval = lit_numbers_def beyond_double_def magnitude_def exponent_def dec_value_def
  mantissa_digits_def is_number_def

lemmas app_eval = optimizeCanvasData_def emptyCanvasData_def empty_buffer_def js_trim_def
  is_js_space_def has_lines_def line_kept_def lines_of_def Let_def dims0_def

lemma numeric_ok_lit: "numeric_ok lit_numbers"
  unfolding numeric_ok_def
proof (intro conjI allI impI)
  fix x :: litnum
  show "num_print lit_numbers x = js ''null'' \<or> is_number (num_print lit_numbers x)"
    by (cases x) (simp_all add: lit_numbers_def)
  assume "is_number (num_print lit_numbers x)"
  then show "num_print lit_numbers (num_read lit_numbers (num_print lit_numbers x))
             = num_print lit_numbers x"
    using not_number_null
    by (cases x) (auto simp: lit_numbers_def split: if_splits)
qed

lemma filter_line_kept: "filter (line_kept N) ls = filter has_points ls"
  by (rule filter_cong) (simp_all add: line_kept_iff)

lemma optimize_lines:
  assumes "JSON_parse N s = Some v" "lines_array v = Some ls"
  shows "\<exists>kvs. v = JObj kvs \<and>
           optimizeCanvasData N d s = stringify N (JObj (with_lines (filter has_points ls) kvs))"
proof -
  from assms(2) obtain kvs where v: "v = JObj kvs"
    and m: "map_of kvs (js ''lines'') = Some (JArr ls)"
    by (auto simp: lines_array_Some)
  from assms(2) have h: "has_lines N v" by (simp add: has_lines_iff)
  from JSON_parse_not_blank [OF assms(1)] assms(1) h v
  have "optimizeCanvasData N d s =
        stringify N (JObj (obj_put (js ''lines'') (JArr (filter (line_kept N) (lines_of v))) kvs))"
    by (simp add: optimizeCanvasData_def)
  with v lines_of_eq [OF assms(2)] obj_put_lines [OF m] show ?thesis
    by (simp add: filter_line_kept)
qed

lemma optimize_degrades:
  assumes "JSON_parse N s = None \<or> (\<exists>v. JSON_parse N s = Some v \<and> lines_array v = None)"
  shows "optimizeCanvasData N d s = emptyCanvasData N d"
  using assms
  by (auto simp: optimizeCanvasData_def has_lines_iff split: json.splits)

lemma optimize_cases:
  "optimizeCanvasData N d s = emptyCanvasData N d \<or>
   (\<exists>kvs ls. JSON_parse N s = Some (JObj kvs) \<and> lines_array (JObj kvs) = Some ls \<and>
      optimizeCanvasData N d s = stringify N (JObj (with_lines (filter has_points ls) kvs)))"
proof (cases "JSON_parse N s")
  case None
  then show ?thesis by (simp add: optimize_degrades)
next
  case (Some v)
  show ?thesis
  proof (cases "lines_array v")
    case None
    with Some show ?thesis by (simp add: optimize_degrades)
  next
    case ls: (Some ls)
    from optimize_lines [OF Some ls, of d] Some ls show ?thesis by auto
  qed
qed

lemma names_distinct [simp]:
  "js ''width'' \<noteq> js ''lines''" "js ''height'' \<noteq> js ''lines''" "js ''width'' \<noteq> js ''height''"
  "js ''lines'' \<noteq> js ''width''" "js ''lines'' \<noteq> js ''height''" "js ''height'' \<noteq> js ''width''"
  by (simp_all add: js_def)

lemma not_index_names:
  "\<not> is_index (js ''lines'')" "\<not> is_index (js ''width'')" "\<not> is_index (js ''height'')"
  by (simp_all add: is_index_def js_def)

lemma wf_empty_buffer: "wf_json (empty_buffer d)"
  by (simp add: empty_buffer_def not_index_names)

lemma lines_array_empty: "lines_array (empty_buffer d) = Some []"
  by (simp add: lines_array_def empty_buffer_def)

lemma keys_ok_distinct: "keys_ok ks \<Longrightarrow> distinct ks"
  by (induction ks) auto

lemma with_lines_absent: "js ''lines'' \<notin> set (map fst kvs) \<Longrightarrow> with_lines ls kvs = kvs"
  by (induction kvs) (auto simp: with_lines_def)

lemma with_lines_same:
  "distinct (map fst kvs) \<Longrightarrow> map_of kvs (js ''lines'') = Some (JArr ls) \<Longrightarrow>
   with_lines ls kvs = kvs"
proof (induction kvs)
  case Nil
  then show ?case by simp
next
  case (Cons x kvs)
  obtain k v where x: "x = (k, v)" by (cases x)
  show ?case
  proof (cases "k = js ''lines''")
    case True
    with Cons.prems x have "v = JArr ls" "js ''lines'' \<notin> set (map fst kvs)" by auto
    with True x with_lines_absent [OF this(2), of ls] show ?thesis
      by (simp add: with_lines_def)
  next
    case False
    with Cons x have "with_lines ls kvs = kvs" by simp
    with False x show ?thesis by (simp add: with_lines_def)
  qed
qed

text \<open>
  The printed form of an object with a \<open>lines\<close> array is a fixed point of
  \<open>optimizeCanvasData\<close> once its strokes all have points.
\<close>

lemma optimize_printed:
  assumes ok: "numeric_ok N" and wf: "wf_json (JObj kvs)"
    and l: "lines_array (JObj kvs) = Some ls" and hp: "\<forall>l\<in>set ls. has_points l"
  shows "optimizeCanvasData N d (stringify N (JObj kvs)) = stringify N (JObj kvs)"
proof -
  have p: "JSON_parse N (stringify N (JObj kvs)) = Some (reread N (JObj kvs))"
    using ok wf by (rule JSON_parse_stringify)
  have l': "lines_array (reread N (JObj kvs)) = Some (reread_elems N ls)"
    using l by (rule lines_array_reread)
  from hp have f: "filter has_points (reread_elems N ls) = reread_elems N ls"
    by (simp add: filter_has_points_reread)
  from l' have "map_of (reread_members N kvs) (js ''lines'') = Some (JArr (reread_elems N ls))"
    by (simp add: lines_array_Some)
  moreover from wf have "distinct (map fst (reread_members N kvs))"
    by (simp add: reread_members_keys keys_ok_distinct)
  ultimately
  have w: "with_lines (reread_elems N ls) (reread_members N kvs) = reread_members N kvs"
    by (intro with_lines_same)
  from optimize_lines [OF p l', of d] f w
  have "optimizeCanvasData N d (stringify N (JObj kvs)) = stringify N (reread N (JObj kvs))"
    by simp
  also have "\<dots> = stringify N (JObj kvs)" using ok by (rule stringify_reread)
  finally show ?thesis .
qed

lemma optimize_empty:
  assumes "numeric_ok N"
  shows "optimizeCanvasData N d (emptyCanvasData N d) = emptyCanvasData N d"
proof -
  obtain kvs where e: "empty_buffer d = JObj kvs" by (simp add: empty_buffer_def)
  from wf_empty_buffer [of d] lines_array_empty [of d] e
  have "wf_json (JObj kvs)" "lines_array (JObj kvs) = Some []" by simp_all
  from optimize_printed [OF assms this, of d] e show ?thesis
    by (simp add: emptyCanvasData_def)
qed

lemma optimize_output:
  assumes "JSON_parse N s = Some (JObj kvs)" "lines_array (JObj kvs) = Some ls"
  shows "wf_json (JObj (with_lines (filter has_points ls) kvs))"
    and "lines_array (JObj (with_lines (filter has_points ls) kvs)) = Some (filter has_points ls)"
proof -
  from JSON_parse_wf [OF assms(1)] have wf: "wf_json (JObj kvs)" .
  from wf_lines_array [OF wf assms(2)] have "\<forall>l\<in>set (filter has_points ls). wf_json l" by simp
  with wf show "wf_json (JObj (with_lines (filter has_points ls) kvs))" by (rule wf_with_lines)
  from assms(2) have "map_of kvs (js ''lines'') = Some (JArr ls)"
    by (simp add: lines_array_Some)
  from map_of_with_lines [OF this]
  show "lines_array (JObj (with_lines (filter has_points ls) kvs)) = Some (filter has_points ls)"
    by (simp add: lines_array_Some)
qed

lemma optimize_idem:
  assumes ok: "numeric_ok N"
  shows "optimizeCanvasData N d (optimizeCanvasData N d s) = optimizeCanvasData N d s"
proof -
  from optimize_cases [of N d s] show ?thesis
  proof
    assume "optimizeCanvasData N d s = emptyCanvasData N d"
    with optimize_empty [OF ok] show ?thesis by simp
  next
    assume "\<exists>kvs ls. JSON_parse N s = Some (JObj kvs) \<and> lines_array (JObj kvs) = Some ls \<and>
      optimizeCanvasData N d s = stringify N (JObj (with_lines (filter has_points ls) kvs))"
    then obtain kvs ls where p: "JSON_parse N s = Some (JObj kvs)"
      and l: "lines_array (JObj kvs) = Some ls"
      and o: "optimizeCanvasData N d s
              = stringify N (JObj (with_lines (filter has_points ls) kvs))"
      by blast
    from optimize_output [OF p l] have wf: "wf_json (JObj (with_lines (filter has_points ls) kvs))"
      and l': "lines_array (JObj (with_lines (filter has_points ls) kvs))
               = Some (filter has_points ls)" by simp_all
    have "\<forall>l\<in>set (filter has_points ls). has_points l" by simp
    from optimize_printed [OF ok wf l' this, of d] o show ?thesis by simp
  qed
qed

section \<open>The claims\<close>

text \<open>
  C4.  \<open>optimize\<close> is idempotent: for every string \<open>s\<close>, optimizing the optimized string
  gives the optimized string again.  What is used of the runtime's numbers is
  \<open>numeric_ok\<close>: a printed Number is \<open>null\<close> or a number literal, and printing is stable
  under reading the printed text back.
\<close>

theorem optimizeCanvasData_idempotent:
  "numeric_ok N \<Longrightarrow>
   optimizeCanvasData N d (optimizeCanvasData N d s) = optimizeCanvasData N d s"
  by (rule optimize_idem)

theorem optimizeCanvasData_idempotent_witness:
  "numeric_ok lit_numbers \<and>
   optimizeCanvasData lit_numbers (dims0 lit_numbers)
     (js ''{\"lines\":[{\"points\":[]},{\"points\":[{\"x\":1,\"y\":2.5}]}],\"width\":1e400}'')
   = js ''{\"lines\":[{\"points\":[{\"x\":1,\"y\":2.5}]}],\"width\":null}'' \<and>
   optimizeCanvasData lit_numbers (dims0 lit_numbers)
     (js ''{\"lines\":[{\"points\":[{\"x\":1,\"y\":2.5}]}],\"width\":null}'')
   = js ''{\"lines\":[{\"points\":[{\"x\":1,\"y\":2.5}]}],\"width\":null}''"
proof -
  let ?s = "js ''{\"lines\":[{\"points\":[]},{\"points\":[{\"x\":1,\"y\":2.5}]}],\"width\":1e400}''"
  have o: "optimizeCanvasData lit_numbers (dims0 lit_numbers) ?s
           = js ''{\"lines\":[{\"points\":[{\"x\":1,\"y\":2.5}]}],\"width\":null}''"
    by (simp add: json_eval app_eval lit_eval)
  from optimizeCanvasData_idempotent [OF numeric_ok_lit, of "dims0 lit_numbers" ?s] o
    numeric_ok_lit
  show ?thesis by simp
qed

text \<open>
  C5.  \<open>optimize\<close> is a total function of its string argument (a throwing \<open>JSON.parse\<close>
  is the \<open>None\<close> branch, which the \<open>catch\<close> absorbs), and whenever the input fails to
  parse, or parses to a value that is not an object with a \<open>lines\<close> array, the result is
  the canonical empty-buffer serialization at the current canvas dimensions.
\<close>

theorem optimizeCanvasData_degrades:
  "(JSON_parse N s = None \<or> (\<exists>v. JSON_parse N s = Some v \<and> lines_array v = None) \<longrightarrow>
      optimizeCanvasData N d s = emptyCanvasData N d) \<and>
   emptyCanvasData N d
     = js ''{\"lines\":[],\"width\":'' @ num_print N (width d) @ js '',\"height\":''
       @ num_print N (height d) @ js ''}''"
proof
  show "JSON_parse N s = None \<or> (\<exists>v. JSON_parse N s = Some v \<and> lines_array v = None) \<longrightarrow>
      optimizeCanvasData N d s = emptyCanvasData N d"
    by (rule impI) (rule optimize_degrades)
  show "emptyCanvasData N d
     = js ''{\"lines\":[],\"width\":'' @ num_print N (width d) @ js '',\"height\":''
       @ num_print N (height d) @ js ''}''"
    by (simp add: emptyCanvasData_def empty_buffer_def json_eval)
qed

theorem optimizeCanvasData_degrades_witness:
  "JSON_parse lit_numbers (js ''{lines'') = None \<and>
   optimizeCanvasData lit_numbers (dims0 lit_numbers) (js ''{lines'')
     = js ''{\"lines\":[],\"width\":1900,\"height\":1200}'' \<and>
   JSON_parse lit_numbers (js ''{\"lines\":3}'')
     = Some (JObj [(js ''lines'', JNum (Lit (js ''3'')))]) \<and>
   lines_array (JObj [(js ''lines'', JNum (Lit (js ''3'')))]) = None \<and>
   optimizeCanvasData lit_numbers (dims0 lit_numbers) (js ''{\"lines\":3}'')
     = js ''{\"lines\":[],\"width\":1900,\"height\":1200}''"
proof -
  have a: "JSON_parse lit_numbers (js ''{lines'') = None"
    by (simp add: json_eval)
  have b: "JSON_parse lit_numbers (js ''{\"lines\":3}'')
           = Some (JObj [(js ''lines'', JNum (Lit (js ''3'')))])"
    by (simp add: json_eval lit_eval)
  have c: "lines_array (JObj [(js ''lines'', JNum (Lit (js ''3'')))]) = None"
    by (simp add: lines_array_def)
  have p: "num_print lit_numbers (width (dims0 lit_numbers)) = js ''1900''"
    "num_print lit_numbers (height (dims0 lit_numbers)) = js ''1200''"
    by (simp_all add: dims0_def json_eval lit_eval)
  from a b c p
    optimizeCanvasData_degrades [of lit_numbers "js ''{lines''" "dims0 lit_numbers"]
    optimizeCanvasData_degrades [of lit_numbers "js ''{\"lines\":3}''" "dims0 lit_numbers"]
  show ?thesis by (simp add: js_def)
qed



text \<open>
  C6 (as the specification has it) fails on a buffer whose \<open>width\<close> is written \<open>1e400\<close>:
  \<open>JSON.parse\<close> reads a Number that is not finite, \<open>JSON.stringify\<close> prints it as \<open>null\<close>, and
  the \<open>width\<close> of the optimized buffer is \<open>null\<close>, not the Number the input had.
\<close>

theorem optimizeCanvasData_width_lost:
  "JSON_parse lit_numbers (js ''{\"lines\":[],\"width\":1e400,\"height\":10}'')
     = Some (JObj [(js ''lines'', JArr []), (js ''width'', JNum NonFinite),
                   (js ''height'', JNum (Lit (js ''10'')))]) \<and>
   lines_array (JObj [(js ''lines'', JArr []), (js ''width'', JNum NonFinite),
                   (js ''height'', JNum (Lit (js ''10'')))]) = Some [] \<and>
   optimizeCanvasData lit_numbers (dims0 lit_numbers)
       (js ''{\"lines\":[],\"width\":1e400,\"height\":10}'')
     = js ''{\"lines\":[],\"width\":null,\"height\":10}'' \<and>
   JSON_parse lit_numbers (js ''{\"lines\":[],\"width\":null,\"height\":10}'')
     = Some (JObj [(js ''lines'', JArr []), (js ''width'', JNull),
                   (js ''height'', JNum (Lit (js ''10'')))])"
  by (simp add: json_eval app_eval lit_eval lines_array_def)

lemma filter_index_neq_conv:
  "filter_index_neq i xs = take i xs @ drop (Suc i) xs"
proof -
  have "map snd (filter (\<lambda>(index, _). index \<noteq> i + n) (enumerate n xs))
        = take i xs @ drop (Suc i) xs" for n
  proof (induction xs arbitrary: i n)
    case Nil
    then show ?case by simp
  next
    case (Cons x xs)
    show ?case
    proof (cases i)
      case 0
      have "filter (\<lambda>(index, _). index \<noteq> n) (enumerate (Suc n) xs) = enumerate (Suc n) xs"
        by (rule filter_True) (auto simp: in_set_enumerate_eq)
      with 0 show ?thesis by simp
    next
      case (Suc j)
      with Cons.IH [of j "Suc n"] show ?thesis by simp
    qed
  qed
  from this [of 0] show ?thesis by (simp add: filter_index_neq_def)
qed

text \<open>
  C8.  \<open>deleteCurrentPage\<close> on a one-page store changes nothing, so that the store still
  has exactly one page.  On a store of two or more pages with the active index in range
  it removes exactly the page at \<open>currentPage\<close>; the active index then drops by one when
  the removed page was the last one, and otherwise keeps its value, which now refers to
  the page that followed the removed one.
\<close>

theorem deleteCurrentPage_spec:
  "(length (pages st) = 1 \<longrightarrow>
      deleteCurrentPage st = st \<and> length (pages (deleteCurrentPage st)) = 1) \<and>
   (2 \<le> length (pages st) \<and> currentPage st < length (pages st) \<longrightarrow>
      pages (deleteCurrentPage st)
        = take (currentPage st) (pages st) @ drop (Suc (currentPage st)) (pages st) \<and>
      length (pages (deleteCurrentPage st)) = length (pages st) - 1 \<and>
      (currentPage st = length (pages st) - 1 \<longrightarrow>
         currentPage (deleteCurrentPage st) = currentPage st - 1) \<and>
      (currentPage st \<noteq> length (pages st) - 1 \<longrightarrow>
         currentPage (deleteCurrentPage st) = currentPage st \<and>
         pages (deleteCurrentPage st) ! currentPage st = pages st ! Suc (currentPage st)))"
  by (auto simp: deleteCurrentPage_def Let_def filter_index_neq_conv nth_append min_def)

theorem deleteCurrentPage_spec_witness:
  "(let st = \<lparr>pages = [js ''a''], currentPage = 0, lastLoadedData = [],
               canvasDimensions = dims0 lit_numbers,
               loading = False, error = None, calls = []\<rparr>
    in length (pages st) = 1 \<and> deleteCurrentPage st = st) \<and>
   (let st = \<lparr>pages = [js ''a'', js ''b'', js ''c''], currentPage = 2, lastLoadedData = [],
               canvasDimensions = dims0 lit_numbers,
               loading = False, error = None, calls = []\<rparr>
    in 2 \<le> length (pages st) \<and> currentPage st < length (pages st) \<and>
       currentPage st = length (pages st) - 1 \<and>
       pages (deleteCurrentPage st) = [js ''a'', js ''b''] \<and>
       currentPage (deleteCurrentPage st) = 1) \<and>
   (let st = \<lparr>pages = [js ''a'', js ''b'', js ''c''], currentPage = 0, lastLoadedData = [],
               canvasDimensions = dims0 lit_numbers,
               loading = False, error = None, calls = []\<rparr>
    in 2 \<le> length (pages st) \<and> currentPage st < length (pages st) \<and>
       currentPage st \<noteq> length (pages st) - 1 \<and>
       pages (deleteCurrentPage st) = [js ''b'', js ''c''] \<and>
       currentPage (deleteCurrentPage st) = 0)"
  using
    deleteCurrentPage_spec [of "\<lparr>pages = [js ''a''], currentPage = 0, lastLoadedData = [],
               canvasDimensions = dims0 lit_numbers,
               loading = False, error = None, calls = []\<rparr>"]
    deleteCurrentPage_spec [of "\<lparr>pages = [js ''a'', js ''b'', js ''c''], currentPage = 2,
               lastLoadedData = [],
               canvasDimensions = dims0 lit_numbers,
               loading = False, error = None, calls = []\<rparr>"]
    deleteCurrentPage_spec [of "\<lparr>pages = [js ''a'', js ''b'', js ''c''], currentPage = 0,
               lastLoadedData = [],
               canvasDimensions = dims0 lit_numbers,
               loading = False, error = None, calls = []\<rparr>"]
  by (simp add: Let_def)

subsection \<open>The operations on a state within bounds\<close>

lemma js_assign_in_range: "i < length xs \<Longrightarrow> js_assign xs i v = Inr (xs[i := v])"
  by (simp add: js_assign_def)

lemma addNewPage_unmounted: "addNewPage N None st = Inr st"
  by (simp add: addNewPage_def)

lemma addNewPage_full:
  "length (pages st) \<ge> 50 \<Longrightarrow>
   addNewPage N (Some live) st = Inr (st\<lparr>error := Some (js ''Maximum 50 pages allowed per note'')\<rparr>)"
  by (simp add: addNewPage_def)

lemma addNewPage_appends:
  assumes "length (pages st) < 50" "currentPage st < length (pages st)"
  shows "addNewPage N (Some live) st =
         Inr (st\<lparr>pages := (pages st)[currentPage st :=
                               optimizeCanvasData N (canvasDimensions st) live]
                             @ [emptyCanvasData N (canvasDimensions st)],
                 currentPage := currentPage st + 1,
                 lastLoadedData := js ''EMPTY_PAGE''\<rparr>)"
  using assms
  by (simp add: addNewPage_def saveCurrentPageData_def js_assign_in_range)

lemma goToPage_noop:
  "pageIndex < 0 \<or> pageIndex \<ge> int (length (pages st)) \<or> pageIndex = int (currentPage st) \<Longrightarrow>
   goToPage N canvas pageIndex st = Inr st"
  by (auto simp: goToPage_def)

lemma goToPage_switch:
  assumes "0 \<le> pageIndex" "pageIndex < int (length (pages st))" "pageIndex \<noteq> int (currentPage st)"
    "currentPage st < length (pages st)"
  shows "goToPage N (Some live) pageIndex st =
         Inr (st\<lparr>pages := (pages st)[currentPage st :=
                               optimizeCanvasData N (canvasDimensions st) live],
                 calls := calls st @ [Clear],
                 currentPage := nat pageIndex,
                 lastLoadedData := js ''PAGE_CHANGED''\<rparr>)"
  using assms
  by (simp add: goToPage_def js_assign_in_range)

lemma goToPage_unmounted:
  assumes "0 \<le> pageIndex" "pageIndex < int (length (pages st))" "pageIndex \<noteq> int (currentPage st)"
  shows "goToPage N None pageIndex st =
         Inr (st\<lparr>currentPage := nat pageIndex, lastLoadedData := js ''PAGE_CHANGED''\<rparr>)"
  using assms by (simp add: goToPage_def)

subsection \<open>The page-load effect\<close>

lemma pageLoadEffect_same:
  "currentPage st < length (pages st) \<Longrightarrow> pages st ! currentPage st = lastLoadedData st \<Longrightarrow>
   pageLoadEffect N m st = st"
  by (simp add: pageLoadEffect_def)

lemma pageLoadEffect_accepted:
  assumes "currentPage st < length (pages st)" "\<not> loading st"
    "page_accepted N (pages st ! currentPage st)" "pages st ! currentPage st \<noteq> lastLoadedData st"
  shows "pageLoadEffect N True st =
         st\<lparr>calls := calls st @ [Clear, LoadSaveData (pages st ! currentPage st)],
            lastLoadedData := pages st ! currentPage st\<rparr>"
  using assms
  by (auto simp: pageLoadEffect_def page_accepted_def Let_def split: option.splits)

lemma pageLoadEffect_unmounted: "pageLoadEffect N False st = st"
  by (simp add: pageLoadEffect_def)

lemma pageLoadEffect_pages:
  "pages (pageLoadEffect N m st) = pages st \<and> currentPage (pageLoadEffect N m st) = currentPage st \<and>
   loading (pageLoadEffect N m st) = loading st \<and>
   canvasDimensions (pageLoadEffect N m st) = canvasDimensions st"
  by (simp add: pageLoadEffect_def Let_def split: option.splits)

lemma optimize_out:
  assumes "numeric_ok N"
  shows "\<exists>v. wf_json v \<and> lines_array v \<noteq> None \<and> optimizeCanvasData N d s = stringify N v"
proof -
  from optimize_cases [of N d s] show ?thesis
  proof
    assume "optimizeCanvasData N d s = emptyCanvasData N d"
    with wf_empty_buffer [of d] lines_array_empty [of d] show ?thesis
      by (auto simp: emptyCanvasData_def)
  next
    assume "\<exists>kvs ls. JSON_parse N s = Some (JObj kvs) \<and> lines_array (JObj kvs) = Some ls \<and>
      optimizeCanvasData N d s = stringify N (JObj (with_lines (filter has_points ls) kvs))"
    then obtain kvs ls where p: "JSON_parse N s = Some (JObj kvs)"
      and l: "lines_array (JObj kvs) = Some ls"
      and o: "optimizeCanvasData N d s = stringify N (JObj (with_lines (filter has_points ls) kvs))"
      by blast
    from optimize_output [OF p l] o show ?thesis
      by (intro exI [of _ "JObj (with_lines (filter has_points ls) kvs)"]) simp
  qed
qed

lemma stringify_object_start:
  "lines_array v \<noteq> None \<Longrightarrow> \<exists>cs. stringify N v = 123 # cs"
  by (cases v) (auto simp: lines_array_def)

lemma optimize_accepted:
  assumes "numeric_ok N"
  shows "page_accepted N (optimizeCanvasData N d s)"
proof -
  from optimize_out [OF assms, of d s] obtain v where wf: "wf_json v"
    and l: "lines_array v \<noteq> None" and o: "optimizeCanvasData N d s = stringify N v"
    by blast
  from stringify_object_start [OF l, of N] obtain cs where c: "stringify N v = 123 # cs" by blast
  from stringify_not_blank [OF assms, of v] JSON_parse_stringify [OF assms wf]
    lines_array_reread [of v _ N] l c show ?thesis
    by (auto simp: page_accepted_def o has_lines_iff js_def)
qed

lemma optimize_starts_with_brace:
  assumes "numeric_ok N"
  shows "\<exists>cs. optimizeCanvasData N d s = 123 # cs"
proof -
  from optimize_out [OF assms, of d s] obtain v where
    "lines_array v \<noteq> None" "optimizeCanvasData N d s = stringify N v" by blast
  with stringify_object_start [of v N] show ?thesis by simp
qed

text \<open>
  C7.  \<open>goToPage(index)\<close> changes nothing when \<open>index\<close> is the current page or lies
  outside \<open>[0, page count)\<close>.  Otherwise, with the surface mounted, it stores the optimized
  live buffer, as read before the surface is cleared, at the old index, clears the
  surface and makes \<open>index\<close> the current page; the page-load effect then binds the new
  page.  Consequently, starting on page 0 with unsaved strokes \<open>X\<close>, going to page 1 and
  back to page 0 (whatever was drawn on page 1 meanwhile) leaves \<open>optimize(X)\<close> as page 0
  and loads exactly that onto the surface.
\<close>

theorem goToPage_flushes_before_clear:
  "(pageIndex < 0 \<or> pageIndex \<ge> int (length (pages st)) \<or> pageIndex = int (currentPage st) \<longrightarrow>
      goToPage N canvas pageIndex st = Inr st) \<and>
   (0 \<le> pageIndex \<and> pageIndex < int (length (pages st)) \<and> pageIndex \<noteq> int (currentPage st) \<and>
    currentPage st < length (pages st) \<longrightarrow>
      goToPage N (Some live) pageIndex st =
        Inr (st\<lparr>pages := (pages st)[currentPage st :=
                              optimizeCanvasData N (canvasDimensions st) live],
                calls := calls st @ [Clear],
                currentPage := nat pageIndex,
                lastLoadedData := js ''PAGE_CHANGED''\<rparr>)) \<and>
   (2 \<le> length (pages st) \<and> currentPage st = 0 \<and> \<not> loading st \<and>
    numeric_ok N \<longrightarrow>
      (\<exists>st1 st2.
         goToPage N (Some X) 1 st = Inr st1 \<and>
         goToPage N (Some Y) 0 (pageLoadEffect N True st1) = Inr st2 \<and>
         pages (pageLoadEffect N True st2) ! 0 = optimizeCanvasData N (canvasDimensions st) X \<and>
         currentPage (pageLoadEffect N True st2) = 0 \<and>
         calls (pageLoadEffect N True st2)
           = calls st2 @ [Clear, LoadSaveData (optimizeCanvasData N (canvasDimensions st) X)] \<and>
         lastLoadedData (pageLoadEffect N True st2)
           = optimizeCanvasData N (canvasDimensions st) X))"
proof (intro conjI impI)
  assume "pageIndex < 0 \<or> pageIndex \<ge> int (length (pages st)) \<or> pageIndex = int (currentPage st)"
  then show "goToPage N canvas pageIndex st = Inr st" by (rule goToPage_noop)
next
  assume "0 \<le> pageIndex \<and> pageIndex < int (length (pages st)) \<and> pageIndex \<noteq> int (currentPage st) \<and>
    currentPage st < length (pages st)"
  then show "goToPage N (Some live) pageIndex st =
        Inr (st\<lparr>pages := (pages st)[currentPage st :=
                              optimizeCanvasData N (canvasDimensions st) live],
                calls := calls st @ [Clear],
                currentPage := nat pageIndex,
                lastLoadedData := js ''PAGE_CHANGED''\<rparr>)"
    by (intro goToPage_switch) simp_all
next
  let ?d = "canvasDimensions st"
  let ?oX = "optimizeCanvasData N ?d X"
  assume a: "2 \<le> length (pages st) \<and> currentPage st = 0 \<and> \<not> loading st \<and> numeric_ok N"
  then have len: "2 \<le> length (pages st)" and cur: "currentPage st = 0"
    and nl: "\<not> loading st" and wd: "numeric_ok N" by simp_all
  define st1 where "st1 = st\<lparr>pages := (pages st)[0 := ?oX], calls := calls st @ [Clear],
                            currentPage := 1, lastLoadedData := js ''PAGE_CHANGED''\<rparr>"
  from len have ne0: "pages st \<noteq> []" "0 < length (pages st)" "1 < length (pages st)" by auto
  have g1: "goToPage N (Some X) 1 st = Inr st1"
    using goToPage_switch [where pageIndex = 1 and st = st and live = X and N = N] len cur ne0 by (simp add: st1_def)
  let ?e1 = "pageLoadEffect N True st1"
  have e1: "pages ?e1 = (pages st)[0 := ?oX]" "currentPage ?e1 = 1" "\<not> loading ?e1"
    "canvasDimensions ?e1 = ?d"
    using pageLoadEffect_pages [where m = True and st = st1 and N = N] nl by (simp_all add: st1_def)
  define st2 where "st2 = ?e1\<lparr>pages := (pages ?e1)[1 := optimizeCanvasData N ?d Y],
                             calls := calls ?e1 @ [Clear], currentPage := 0,
                             lastLoadedData := js ''PAGE_CHANGED''\<rparr>"
  have g2: "goToPage N (Some Y) 0 ?e1 = Inr st2"
    using goToPage_switch [where pageIndex = 0 and st = ?e1 and live = Y and N = N] e1 len ne0 by (simp add: st2_def)
  have p0: "pages st2 ! 0 = ?oX"
    using e1 ne0 by (simp add: st2_def)
  have s2: "currentPage st2 < length (pages st2)" "\<not> loading st2" "currentPage st2 = 0"
    using e1 ne0 by (simp_all add: st2_def)
  from optimize_starts_with_brace [OF wd, of ?d X] have ne: "?oX \<noteq> js ''PAGE_CHANGED''"
    by (auto simp: js_def)
  have acc: "page_accepted N (pages st2 ! currentPage st2)"
    using optimize_accepted [OF wd, of ?d X] p0 s2 by simp
  have "pages st2 ! currentPage st2 \<noteq> lastLoadedData st2"
    using ne p0 s2 by (simp add: st2_def)
  from pageLoadEffect_accepted [OF s2(1,2) acc this] p0 s2(3)
  have "pageLoadEffect N True st2 =
        st2\<lparr>calls := calls st2 @ [Clear, LoadSaveData ?oX], lastLoadedData := ?oX\<rparr>"
    by simp
  with g1 g2 p0 s2(3)
  show "\<exists>st1 st2.
         goToPage N (Some X) 1 st = Inr st1 \<and>
         goToPage N (Some Y) 0 (pageLoadEffect N True st1) = Inr st2 \<and>
         pages (pageLoadEffect N True st2) ! 0 = ?oX \<and>
         currentPage (pageLoadEffect N True st2) = 0 \<and>
         calls (pageLoadEffect N True st2) = calls st2 @ [Clear, LoadSaveData ?oX] \<and>
         lastLoadedData (pageLoadEffect N True st2) = ?oX"
    by (intro exI [of _ st1] exI [of _ st2]) simp
qed

theorem goToPage_flushes_before_clear_witness:
  "goToPage lit_numbers (Some (js ''{\"lines\":[{\"points\":[7]},{\"points\":[]}]}'')) 0
     ((initial (dims0 lit_numbers))\<lparr>pages := [js ''a'', js ''b''], loading := False\<rparr>)
     = Inr ((initial (dims0 lit_numbers))\<lparr>pages := [js ''a'', js ''b''], loading := False\<rparr>) \<and>
   goToPage lit_numbers (Some (js ''{\"lines\":[{\"points\":[7]},{\"points\":[]}]}'')) 1
     ((initial (dims0 lit_numbers))\<lparr>pages := [js ''a'', js ''b''], loading := False\<rparr>)
     = Inr ((initial (dims0 lit_numbers))
              \<lparr>pages := [js ''{\"lines\":[{\"points\":[7]}]}'', js ''b''],
               loading := False, calls := [Clear], currentPage := 1,
               lastLoadedData := js ''PAGE_CHANGED''\<rparr>) \<and>
   numeric_ok lit_numbers \<and>
   (\<exists>st1 st2.
      goToPage lit_numbers (Some (js ''{\"lines\":[{\"points\":[7]},{\"points\":[]}]}'')) 1
        ((initial (dims0 lit_numbers))\<lparr>pages := [js ''a'', js ''b''], loading := False\<rparr>)
        = Inr st1 \<and>
      goToPage lit_numbers (Some (js ''y'')) 0 (pageLoadEffect lit_numbers True st1) = Inr st2 \<and>
      pages (pageLoadEffect lit_numbers True st2) ! 0 = js ''{\"lines\":[{\"points\":[7]}]}'' \<and>
      currentPage (pageLoadEffect lit_numbers True st2) = 0 \<and>
      calls (pageLoadEffect lit_numbers True st2)
        = calls st2 @ [Clear, LoadSaveData (js ''{\"lines\":[{\"points\":[7]}]}'')] \<and>
      lastLoadedData (pageLoadEffect lit_numbers True st2) = js ''{\"lines\":[{\"points\":[7]}]}'')"
proof -
  let ?X = "js ''{\"lines\":[{\"points\":[7]},{\"points\":[]}]}''"
  let ?oX = "js ''{\"lines\":[{\"points\":[7]}]}''"
  let ?D = "dims0 lit_numbers"
  let ?st = "(initial ?D)\<lparr>pages := [js ''a'', js ''b''], loading := False\<rparr>"
  have o: "optimizeCanvasData lit_numbers ?D ?X = ?oX"
    by (simp add: json_eval app_eval lit_eval)
  have h: "2 \<le> length (pages ?st) \<and> currentPage ?st = 0 \<and> \<not> loading ?st \<and>
           numeric_ok lit_numbers"
    using numeric_ok_lit by (simp add: initial_def)
  have d: "canvasDimensions ?st = ?D" by (simp add: initial_def)
  from goToPage_flushes_before_clear [where pageIndex = 1 and live = ?X
      and X = ?X and Y = "js ''y''" and st = ?st and N = lit_numbers,
      THEN conjunct2, THEN conjunct2] h
  have 3: "\<exists>st1 st2.
      goToPage lit_numbers (Some ?X) 1 ?st = Inr st1 \<and>
      goToPage lit_numbers (Some (js ''y'')) 0 (pageLoadEffect lit_numbers True st1) = Inr st2 \<and>
      pages (pageLoadEffect lit_numbers True st2) ! 0 = optimizeCanvasData lit_numbers ?D ?X \<and>
      currentPage (pageLoadEffect lit_numbers True st2) = 0 \<and>
      calls (pageLoadEffect lit_numbers True st2)
        = calls st2 @ [Clear, LoadSaveData (optimizeCanvasData lit_numbers ?D ?X)] \<and>
      lastLoadedData (pageLoadEffect lit_numbers True st2) = optimizeCanvasData lit_numbers ?D ?X"
    unfolding d by (rule mp)
  have 1: "goToPage lit_numbers (Some ?X) 0 ?st = Inr ?st"
    using goToPage_flushes_before_clear [where pageIndex = 0 and canvas = "Some ?X"
      and st = ?st and N = lit_numbers]
    by (simp add: initial_def)
  have 2: "goToPage lit_numbers (Some ?X) 1 ?st
     = Inr ((initial ?D)\<lparr>pages := [optimizeCanvasData lit_numbers ?D ?X, js ''b''],
                              loading := False, calls := [Clear], currentPage := 1,
                              lastLoadedData := js ''PAGE_CHANGED''\<rparr>)"
    using goToPage_flushes_before_clear [where pageIndex = 1 and live = ?X and st = ?st
      and N = lit_numbers]
    by (simp add: initial_def)
  from 1 2 [unfolded o] 3 [unfolded o] numeric_ok_lit show ?thesis by (intro conjI)
qed

text \<open>
  C3 (as the source has it).  The page-load effect compares the page data as stored, not
  after \<open>optimize\<close>.  For page data that it accepts as a buffer (non-blank, not \<open>""\<close> or
  \<open>[]\<close>, parsing to an object with a \<open>lines\<close> array), running the effect twice in a row
  triggers the clear/load sequence at most once: the second run changes nothing.  Every
  output of \<open>optimize\<close>, and so the empty-buffer serialization of an empty page, is such
  data.
\<close>

theorem pageLoadEffect_rebind_noop:
  "(currentPage st < length (pages st) \<and> page_accepted N (pages st ! currentPage st) \<longrightarrow>
      pageLoadEffect N m (pageLoadEffect N m st) = pageLoadEffect N m st \<and>
      (calls (pageLoadEffect N m st) = calls st \<or>
       calls (pageLoadEffect N m st)
         = calls st @ [Clear, LoadSaveData (pages st ! currentPage st)])) \<and>
   (numeric_ok N \<longrightarrow>
      page_accepted N (optimizeCanvasData N d s) \<and> page_accepted N (emptyCanvasData N d))"
proof (intro conjI impI)
  assume a: "currentPage st < length (pages st) \<and> page_accepted N (pages st ! currentPage st)"
  show "pageLoadEffect N m (pageLoadEffect N m st) = pageLoadEffect N m st"
    using a by (auto simp: pageLoadEffect_def page_accepted_def Let_def split: option.splits)
  show "calls (pageLoadEffect N m st) = calls st \<or>
       calls (pageLoadEffect N m st) = calls st @ [Clear, LoadSaveData (pages st ! currentPage st)]"
    using a by (auto simp: pageLoadEffect_def page_accepted_def Let_def split: option.splits)
next
  assume w: "numeric_ok N"
  then show "page_accepted N (optimizeCanvasData N d s)" by (rule optimize_accepted)
  from optimize_accepted [OF w, of d "emptyCanvasData N d"] optimize_empty [OF w, of d]
  show "page_accepted N (emptyCanvasData N d)" by simp
qed

theorem pageLoadEffect_rebind_noop_witness:
  "page_accepted lit_numbers (js ''{\"lines\":[{\"points\":[7]}]}'') \<and>
   pageLoadEffect lit_numbers True (pageLoadEffect lit_numbers True
     ((initial (dims0 lit_numbers))
        \<lparr>pages := [js ''{\"lines\":[{\"points\":[7]}]}''], loading := False\<rparr>))
   = pageLoadEffect lit_numbers True
     ((initial (dims0 lit_numbers))
        \<lparr>pages := [js ''{\"lines\":[{\"points\":[7]}]}''], loading := False\<rparr>) \<and>
   calls (pageLoadEffect lit_numbers True
     ((initial (dims0 lit_numbers))
        \<lparr>pages := [js ''{\"lines\":[{\"points\":[7]}]}''], loading := False\<rparr>))
   = [Clear, LoadSaveData (js ''{\"lines\":[{\"points\":[7]}]}'')] \<and>
   numeric_ok lit_numbers \<and>
   emptyCanvasData lit_numbers (dims0 lit_numbers)
     = js ''{\"lines\":[],\"width\":1900,\"height\":1200}'' \<and>
   page_accepted lit_numbers (js ''{\"lines\":[],\"width\":1900,\"height\":1200}'')"
proof -
  let ?d = "js ''{\"lines\":[{\"points\":[7]}]}''"
  let ?D = "dims0 lit_numbers"
  let ?st = "(initial ?D)\<lparr>pages := [?d], loading := False\<rparr>"
  have acc: "page_accepted lit_numbers ?d"
    by (simp add: page_accepted_def json_eval app_eval lit_eval has_lines_iff lines_array_def)
  have c: "calls (pageLoadEffect lit_numbers True ?st) = [Clear, LoadSaveData ?d]"
    using acc pageLoadEffect_accepted [of ?st lit_numbers]
    by (simp add: initial_def) (simp add: js_def)
  have e: "emptyCanvasData lit_numbers ?D = js ''{\"lines\":[],\"width\":1900,\"height\":1200}''"
    by (simp add: json_eval app_eval lit_eval dims0_def)
  from acc c numeric_ok_lit e
    pageLoadEffect_rebind_noop [where st = ?st and m = True and d = ?D and N = lit_numbers]
  show ?thesis by (simp add: initial_def)
qed

text \<open>
  C3 (as the specification has it) fails for the page data \<open>[]\<close>: the effect clears the
  surface and stores the marker \<open>EMPTY_PAGE\<close> as \<open>lastLoadedData\<close>, which differs from the
  page data, so that the next run of the effect clears the surface again.
\<close>

theorem pageLoadEffect_rebind_counterexample:
  "calls (pageLoadEffect lit_numbers True
     ((initial (dims0 lit_numbers))\<lparr>pages := [js ''[]''], loading := False\<rparr>)) = [Clear] \<and>
   calls (pageLoadEffect lit_numbers True (pageLoadEffect lit_numbers True
     ((initial (dims0 lit_numbers))\<lparr>pages := [js ''[]''], loading := False\<rparr>)))
     = [Clear, Clear] \<and>
   pageLoadEffect lit_numbers True (pageLoadEffect lit_numbers True
     ((initial (dims0 lit_numbers))\<lparr>pages := [js ''[]''], loading := False\<rparr>))
   \<noteq> pageLoadEffect lit_numbers True
       ((initial (dims0 lit_numbers))\<lparr>pages := [js ''[]''], loading := False\<rparr>)"
proof -
  let ?st = "(initial (dims0 lit_numbers))\<lparr>pages := [js ''[]''], loading := False\<rparr>"
  have 1: "pageLoadEffect lit_numbers True ?st
           = ?st\<lparr>calls := [Clear], lastLoadedData := js ''EMPTY_PAGE''\<rparr>"
    by (simp add: pageLoadEffect_def initial_def js_def)
  have 2: "pageLoadEffect lit_numbers True
             (?st\<lparr>calls := [Clear], lastLoadedData := js ''EMPTY_PAGE''\<rparr>)
           = ?st\<lparr>calls := [Clear, Clear], lastLoadedData := js ''EMPTY_PAGE''\<rparr>"
    by (simp add: pageLoadEffect_def initial_def js_def)
  show ?thesis
    unfolding 1 2 by (simp add: initial_def)
qed

end
